theory Spec2Isabelle
  imports Complex_Main
begin

section \<open>Numbers and exceptions\<close>

text \<open>
  The viewer (\<^verbatim>\<open>RealTimeAnimation/viewer/graph.js\<close>) computes with JavaScript numbers,
  which are IEEE 754 doubles. A finite number is the real it denotes. A value on which the
  source's \<^verbatim>\<open>Number.isFinite\<close> test fails (NaN, an infinity, something that is not a
  number) is \<open>None\<close> of type \<open>jsnum\<close>.
\<close>

type_synonym jsnum = "real option"

text \<open>
  An arithmetic operation on doubles gives the exact result rounded to the nearest double, a
  tie going to the even significand. \<open>rne\<close> is that rounding to an integer, and
  \<open>binaryRound p emin\<close> rounds a real to \<open>p\<close> significant bits: the spacing of the
  values around \<open>x\<close> is \<open>2\<close> to the power \<open>e - (p - 1)\<close>, with \<open>e\<close> the binary
  exponent of \<open>x\<close>, or \<open>emin\<close> when the exponent is smaller (gradual underflow).
\<close>

definition rne :: "real \<Rightarrow> int" where
  "rne y =
     (let f = \<lfloor>y\<rfloor>; d = y - of_int f
      in if d < 1 / 2 then f else if d > 1 / 2 then f + 1 else if even f then f else f + 1)"

definition binaryRound :: "nat \<Rightarrow> int \<Rightarrow> real \<Rightarrow> real" where
  "binaryRound p emin x =
     (if x = 0 then 0
      else (let e = max \<lfloor>log 2 \<bar>x\<bar>\<rfloor> emin;
                u = 2 powr (of_int e - (real p - 1))
            in of_int (rne (x / u)) * u))"

text \<open>
  \<open>double\<close> rounds to a double (53 bits, exponents from \<open>-1022\<close>). A result of magnitude
  \<open>2^1024\<close> or more is an infinity in JavaScript: \<open>finite64\<close> gives \<open>None\<close> for it.
\<close>

definition double :: "real \<Rightarrow> real" where
  "double x = binaryRound 53 (- 1022) x"

definition finite64 :: "real \<Rightarrow> jsnum" where
  "finite64 x = (if \<bar>double x\<bar> < 2 ^ 1024 then Some (double x) else None)"

text \<open>
  An element of a \<^verbatim>\<open>Float32Array\<close>: a finite value of 24 significant bits, or an infinity
  (the viewer stores no NaN). The elements of a new array are zero. A store converts the
  double to the nearest such value, and to an infinity from \<open>2^128\<close> on.
\<close>

datatype float32 = Finite32 real | PosInf32 | NegInf32

instantiation float32 :: zero
begin
definition zero_float32_def: "0 = Finite32 0"
instance ..
end

definition toFloat32 :: "real \<Rightarrow> float32" where
  "toFloat32 x =
     (let r = binaryRound 24 (- 126) x
      in if 2 ^ 128 \<le> r then PosInf32 else if r \<le> - (2 ^ 128) then NegInf32 else Finite32 r)"

text \<open>
  Rounding is part of the model where a stored value depends on it: the time of a sample
  relative to the origin of the session (\<open>relativeTime\<close>, \<open>pushFrames\<close>), the stores into
  the \<^verbatim>\<open>Float32Array\<close> of the 3D module (\<open>updateItem\<close>), and the sample-rate estimator in
  double precision (\<open>estimateSampleRate64\<close>). The window store and the estimator of the
  session model compute in exact arithmetic.
\<close>

text \<open>\<^verbatim>\<open>Math.round\<close>: the nearest integer, a tie going up.\<close>

definition Math_round :: "real \<Rightarrow> real" where
  "Math_round x = of_int \<lfloor>x + 1 / 2\<rfloor>"

text \<open>
  A function whose body can raise a \<^verbatim>\<open>TypeError\<close> (a property read on \<^verbatim>\<open>undefined\<close>)
  returns an outcome: \<open>Done\<close> with the state it leaves, or \<open>Thrown\<close> with the state
  as it was when the exception left the function (JavaScript does not roll mutations back).
\<close>

datatype 'a outcome = Done 'a | Thrown 'a

section \<open>The 2D strip-chart module\<close>

subsection \<open>State\<close>

record sample =
  st :: real
  sy :: real

record estimator =
  lastTime :: "real option"
  sampleTimes :: "real list"
  estimatedRate :: real
  recommendedWindow :: real
  maxSamplesPerNode :: nat
  autoAdjusted :: bool

text \<open>
  A row of the chart: whether its \<^verbatim>\<open>style.display\<close> shows it, and whether its canvas
  holds any drawing.
\<close>

record row =
  display :: bool
  painted :: bool

text \<open>
  The variables of the first closure. \<open>dataByNode\<close> is a JavaScript array written by
  index, hence a map from indices; \<open>winEl_value\<close> is the number in the window input.
\<close>

record graph =
  sampleRateEstimator :: estimator
  winEl_value :: jsnum
  nodeCount :: nat
  rowsEls :: "row list"
  visibleSet :: "nat set"
  windowSec :: real
  running :: bool
  dataByNode :: "nat \<rightharpoonup> sample list"
  t0Payload :: "real option"
  externalActive :: bool
  lastExternalSec :: real

text \<open>
  The state after the closure has run. The page (not among the sources) gives the initial
  value \<open>w\<close> of the window input.
\<close>

definition init_estimator :: estimator where
  "init_estimator =
     \<lparr>lastTime = None, sampleTimes = [], estimatedRate = 0, recommendedWindow = 5,
      maxSamplesPerNode = 300, autoAdjusted = False\<rparr>"

definition init_graph :: "real \<Rightarrow> graph" where
  "init_graph w =
     \<lparr>sampleRateEstimator = init_estimator,
      winEl_value = Some w,
      nodeCount = 15,
      rowsEls = replicate 15 \<lparr>display = True, painted = False\<rparr>,
      visibleSet = {0..<15},
      windowSec = w,
      running = True,
      dataByNode = (\<lambda>i. if i < 15 then Some [] else None),
      t0Payload = None,
      externalActive = False,
      lastExternalSec = 0\<rparr>"

subsection \<open>Sample-rate estimation\<close>

text \<open>\<^verbatim>\<open>sorted[Math.floor(sorted.length/2)]\<close> of the numerically sorted copy.\<close>

definition median :: "real list \<Rightarrow> real" where
  "median xs = sort xs ! (length (sort xs) div 2)"

text \<open>The recommended window for a rate: clamp, then round to a half.\<close>

definition recommend :: "nat \<Rightarrow> real \<Rightarrow> real" where
  "recommend target rate =
     Math_round (min 60 (max (1 / 2) (real target / rate)) * 2) / 2"

text \<open>Lines 44 to 62: the estimate from the stored intervals, and the one-shot adjustment.\<close>

definition updateEstimate :: "graph \<Rightarrow> graph" where
  "updateEstimate s =
     (let e = sampleRateEstimator s in
      if length (sampleTimes e) \<ge> 10 then
        (if median (sampleTimes e) > 0 then
           (let rate = 1 / median (sampleTimes e);
                rw = recommend (maxSamplesPerNode e) rate;
                e2 = e\<lparr>estimatedRate := rate, recommendedWindow := rw\<rparr>;
                shouldAdjust = (\<bar>windowSec s - rw\<bar> > 1)
            in if \<not> autoAdjusted e2 \<and> shouldAdjust \<and> windowSec s > rw
               then s\<lparr>sampleRateEstimator := e2\<lparr>autoAdjusted := True\<rparr>,
                      winEl_value := Some rw, windowSec := rw\<rparr>
               else s\<lparr>sampleRateEstimator := e2\<rparr>)
         else s)
      else s)"

text \<open>Lines 42 and 43, then the estimate: an accepted interval enters the bounded history.\<close>

definition recordInterval :: "real \<Rightarrow> graph \<Rightarrow> graph" where
  "recordInterval interval s =
     (let e = sampleRateEstimator s;
          pushed = sampleTimes e @ [interval];
          times = (if length pushed > 20 then tl pushed else pushed)
      in updateEstimate (s\<lparr>sampleRateEstimator := e\<lparr>sampleTimes := times\<rparr>\<rparr>))"

definition estimateSampleRate :: "jsnum \<Rightarrow> graph \<Rightarrow> graph" where
  "estimateSampleRate timestamp s =
     (case timestamp of
        None \<Rightarrow> s
      | Some now \<Rightarrow>
          (let s1 =
             (case lastTime (sampleRateEstimator s) of
                None \<Rightarrow> s
              | Some lt \<Rightarrow>
                  (let interval = now - lt in
                   if interval > 0 \<and> interval < 10 then recordInterval interval s else s))
           in s1\<lparr>sampleRateEstimator := (sampleRateEstimator s1)\<lparr>lastTime := Some now\<rparr>\<rparr>))"

text \<open>The handler of the window input's \<^verbatim>\<open>input\<close> event; \<open>v\<close> is what the operator typed.\<close>

definition winInput :: "jsnum \<Rightarrow> graph \<Rightarrow> graph" where
  "winInput v s =
     (let s0 = s\<lparr>winEl_value := v\<rparr> in
      case v of
        None \<Rightarrow> s0
      | Some val \<Rightarrow>
          if val \<ge> 1 / 2 \<and> val \<le> 60
          then s0\<lparr>windowSec := val,
                  sampleRateEstimator := (sampleRateEstimator s0)\<lparr>autoAdjusted := True\<rparr>\<rparr>
          else s0)"

subsection \<open>Sample-rate estimation in double precision\<close>

text \<open>
  The estimator once more (lines 18 to 66), with the arithmetic of doubles: the interval
  between two timestamps and the two quotients are rounded, and a quotient can overflow.
  The stored intervals are finite doubles. \<open>estimatedRate64\<close> is \<open>None\<close> when the rate
  is \<^verbatim>\<open>Infinity\<close> (the quotient \<open>1 / median\<close> of a median below \<open>2^-1024\<close>), and
  \<open>recommendedWindow64\<close> is \<open>None\<close> when it is NaN.
\<close>

record estimator64 =
  lastTime64 :: "real option"
  sampleTimes64 :: "real list"
  estimatedRate64 :: jsnum
  recommendedWindow64 :: jsnum
  maxSamplesPerNode64 :: nat
  autoAdjusted64 :: bool

text \<open>
  What \<^verbatim>\<open>estimateSampleRate\<close> reads and writes: the estimator, the window input and the
  display window.
\<close>

record page64 =
  sampleRateEstimator64 :: estimator64
  winEl_value64 :: jsnum
  windowSec64 :: real

definition init_estimator64 :: estimator64 where
  "init_estimator64 =
     \<lparr>lastTime64 = None, sampleTimes64 = [], estimatedRate64 = Some 0,
      recommendedWindow64 = Some 5, maxSamplesPerNode64 = 300, autoAdjusted64 = False\<rparr>"

definition init_page64 :: "real \<Rightarrow> page64" where
  "init_page64 w =
     \<lparr>sampleRateEstimator64 = init_estimator64, winEl_value64 = Some w, windowSec64 = w\<rparr>"

text \<open>
  Lines 48 and 49: \<^verbatim>\<open>target / estimatedRate\<close> clamped, then rounded to a half. The
  quotient is 0 for an infinite rate, an infinity when it overflows or when the rate is 0
  (the clamp then gives 60, or 0.5 for a negative infinity), and NaN for \<open>0 / 0\<close>, which
  the clamp and the rounding keep. Twice a value between 0.5 and 60 and half of an integer up
  to 120 are exact in doubles.
\<close>

definition recommend64 :: "nat \<Rightarrow> jsnum \<Rightarrow> jsnum" where
  "recommend64 target rate =
     (case rate of
        None \<Rightarrow> Some (Math_round (min 60 (max (1 / 2) 0) * 2) / 2)
      | Some r \<Rightarrow>
          if r = 0 then (if target = 0 then None else Some (Math_round (60 * 2) / 2))
          else
            (case finite64 (real target / r) of
               None \<Rightarrow> Some (Math_round ((if 0 < real target / r then 60 else 1 / 2) * 2) / 2)
             | Some q \<Rightarrow> Some (Math_round (min 60 (max (1 / 2) q) * 2) / 2)))"

text \<open>
  Lines 44 to 62. \<^verbatim>\<open>Math.abs(windowSec - recommendedWindow) > 1.0\<close> holds for a
  difference that overflows, and no comparison holds for a recommended window that is NaN.
\<close>

definition updateEstimate64 :: "page64 \<Rightarrow> page64" where
  "updateEstimate64 s =
     (let e = sampleRateEstimator64 s in
      if length (sampleTimes64 e) \<ge> 10 then
        (if median (sampleTimes64 e) > 0 then
           (let rate = finite64 (1 / median (sampleTimes64 e));
                rw = recommend64 (maxSamplesPerNode64 e) rate;
                e2 = e\<lparr>estimatedRate64 := rate, recommendedWindow64 := rw\<rparr>
            in case rw of
                 None \<Rightarrow> s\<lparr>sampleRateEstimator64 := e2\<rparr>
               | Some r \<Rightarrow>
                   (let shouldAdjust =
                          (case finite64 (windowSec64 s - r) of
                             None \<Rightarrow> True
                           | Some d \<Rightarrow> \<bar>d\<bar> > 1)
                    in if \<not> autoAdjusted64 e2 \<and> shouldAdjust \<and> windowSec64 s > r
                       then s\<lparr>sampleRateEstimator64 := e2\<lparr>autoAdjusted64 := True\<rparr>,
                              winEl_value64 := Some r, windowSec64 := r\<rparr>
                       else s\<lparr>sampleRateEstimator64 := e2\<rparr>))
         else s)
      else s)"

text \<open>Lines 42 and 43, then the estimate.\<close>

definition recordInterval64 :: "real \<Rightarrow> page64 \<Rightarrow> page64" where
  "recordInterval64 interval s =
     (let e = sampleRateEstimator64 s;
          pushed = sampleTimes64 e @ [interval];
          times = (if length pushed > 20 then tl pushed else pushed)
      in updateEstimate64 (s\<lparr>sampleRateEstimator64 := e\<lparr>sampleTimes64 := times\<rparr>\<rparr>))"

text \<open>
  \<^verbatim>\<open>estimateSampleRate\<close>: the interval is the double difference of the two timestamps; an
  infinite one fails both comparisons.
\<close>

definition estimateSampleRate64 :: "jsnum \<Rightarrow> page64 \<Rightarrow> page64" where
  "estimateSampleRate64 timestamp s =
     (case timestamp of
        None \<Rightarrow> s
      | Some now \<Rightarrow>
          (let s1 =
             (case lastTime64 (sampleRateEstimator64 s) of
                None \<Rightarrow> s
              | Some lt \<Rightarrow>
                  (case finite64 (now - lt) of
                     None \<Rightarrow> s
                   | Some interval \<Rightarrow>
                       if interval > 0 \<and> interval < 10 then recordInterval64 interval s else s))
           in s1\<lparr>sampleRateEstimator64 := (sampleRateEstimator64 s1)\<lparr>lastTime64 := Some now\<rparr>\<rparr>))"

subsection \<open>Channel capacity, buffers, clearing\<close>

definition addRow :: "graph \<Rightarrow> graph" where
  "addRow s = s\<lparr>rowsEls := rowsEls s @ [\<lparr>display = True, painted = False\<rparr>]\<rparr>"

definition applyVisibility :: "graph \<Rightarrow> graph" where
  "applyVisibility s =
     s\<lparr>rowsEls := map (\<lambda>(i, r). r\<lparr>display := (i \<in> visibleSet s)\<rparr>)
                     (zip [0..<length (rowsEls s)] (rowsEls s))\<rparr>"

text \<open>
  \<^verbatim>\<open>resize\<close> assigns every canvas its width and height, which resets the canvas bitmap.
\<close>

definition resize :: "graph \<Rightarrow> graph" where
  "resize s = s\<lparr>rowsEls := map (\<lambda>r. r\<lparr>painted := False\<rparr>) (rowsEls s)\<rparr>"

definition growNode :: "nat \<Rightarrow> graph \<Rightarrow> graph" where
  "growNode i s =
     (let s1 = addRow s in
      s1\<lparr>dataByNode := (dataByNode s1)(i \<mapsto> []), visibleSet := insert i (visibleSet s1)\<rparr>)"

definition ensureNodeCapacity :: "nat \<Rightarrow> graph \<Rightarrow> graph" where
  "ensureNodeCapacity n s =
     (if n \<le> nodeCount s then s
      else resize (applyVisibility ((fold growNode [nodeCount s..<n] s)\<lparr>nodeCount := n\<rparr>)))"

text \<open>The body of \<^verbatim>\<open>pushSample\<close> on the array it has fetched.\<close>

definition pushInto :: "real \<Rightarrow> nat \<Rightarrow> real \<Rightarrow> real \<Rightarrow> sample list \<Rightarrow> sample list" where
  "pushInto win maxPer t y arr =
     (let arr1 = arr @ [\<lparr>st = t, sy = y\<rparr>];
          cutoff = t - win;
          arr2 = dropWhile (\<lambda>p. st p < cutoff) arr1;
          maxSamples = (if maxPer = 0 then 300 else maxPer) * 2
      in if length arr2 > maxSamples then drop (length arr2 - maxSamples) arr2 else arr2)"

definition pushSample :: "nat \<Rightarrow> real \<Rightarrow> real \<Rightarrow> graph \<Rightarrow> graph outcome" where
  "pushSample nodeId t y s =
     (case dataByNode s nodeId of
        None \<Rightarrow> Thrown s
      | Some arr \<Rightarrow>
          Done (s\<lparr>dataByNode := (dataByNode s)(nodeId \<mapsto>
                  pushInto (windowSec s) (maxSamplesPerNode (sampleRateEstimator s)) t y arr)\<rparr>))"

text \<open>\<^verbatim>\<open>clearAllData\<close>: the loop from index \<open>i\<close> on.\<close>

function clearFrom :: "nat \<Rightarrow> graph \<Rightarrow> graph outcome" where
  "clearFrom i s =
     (if i < nodeCount s then
        (case dataByNode s i of
           None \<Rightarrow> Thrown s
         | Some arr \<Rightarrow>
             (let s1 = s\<lparr>dataByNode := (dataByNode s)(i \<mapsto> [])\<rparr> in
              if i < length (rowsEls s1)
              then clearFrom (Suc i)
                     (s1\<lparr>rowsEls := (rowsEls s1)[i := (rowsEls s1 ! i)\<lparr>painted := False\<rparr>]\<rparr>)
              else Thrown s1))
      else Done s)"
  by pat_completeness auto
termination
  by (relation "measure (\<lambda>(i, s). nodeCount s - i)") auto

declare clearFrom.simps [simp del]

definition clearAllData :: "graph \<Rightarrow> graph outcome" where
  "clearAllData s = clearFrom 0 s"

text \<open>
  The OK button of the selection dialog; \<open>checked\<close> lists the indices of the ticked boxes.
\<close>

definition modalOk :: "nat list \<Rightarrow> graph \<Rightarrow> graph" where
  "modalOk checked s =
     (let next = set checked in
      if next = {} then s else applyVisibility (s\<lparr>visibleSet := next\<rparr>))"

subsection \<open>Ingestion\<close>

record payload =
  timestamp :: jsnum
  nodes :: "jsnum list option"
  amps :: "jsnum list option"

record batch =
  ts :: "jsnum list option"
  frames :: "jsnum list list option"

text \<open>
  \<^verbatim>\<open>Number(vs[i])\<close>: an index past the end reads \<^verbatim>\<open>undefined\<close>, which is not finite.
\<close>

definition numAt :: "jsnum list \<Rightarrow> nat \<Rightarrow> jsnum" where
  "numAt vs i = (if i < length vs then vs ! i else None)"

text \<open>The inner loop over the channels \<open>is\<close> of one amplitude vector.\<close>

fun pushAmps :: "nat list \<Rightarrow> real \<Rightarrow> jsnum list \<Rightarrow> graph \<Rightarrow> graph outcome" where
  "pushAmps [] t vs s = Done s"
| "pushAmps (i # is) t vs s =
     (case numAt vs i of
        None \<Rightarrow> pushAmps is t vs s
      | Some y \<Rightarrow>
          (case pushSample i t y s of
             Done s1 \<Rightarrow> pushAmps is t vs s1
           | Thrown s1 \<Rightarrow> Thrown s1))"

definition pushVector :: "real \<Rightarrow> jsnum list \<Rightarrow> graph \<Rightarrow> graph outcome" where
  "pushVector t vs s =
     (let s1 = ensureNodeCapacity (length vs) s in
      pushAmps [0..<min (nodeCount s1) (length vs)] t vs s1)"

text \<open>
  \<^verbatim>\<open>window.pushGraphSamples\<close>; \<open>clock\<close> is the reading of the local clock
  (\<^verbatim>\<open>performance.now() / 1000 - clock0\<close>). First the time of the samples: relative to
  the origin of the session, which a finite timestamp sets when there is none, or local
  when the payload has no finite timestamp. The difference is a double subtraction. It is
  taken to be finite, as it is for timestamps below \<open>2^1023\<close> in magnitude; sample times
  are reals and hold no infinity.
\<close>

definition relativeTime :: "payload \<Rightarrow> real \<Rightarrow> graph \<Rightarrow> graph \<times> real" where
  "relativeTime payload clock s =
     (case timestamp payload of
        Some x \<Rightarrow>
          (let t0 = (case t0Payload s of None \<Rightarrow> x | Some z \<Rightarrow> z)
           in (s\<lparr>t0Payload := Some t0\<rparr>, double (x - t0)))
      | None \<Rightarrow> (s, clock))"

text \<open>The end of the \<^verbatim>\<open>try\<close> block; the \<^verbatim>\<open>catch\<close> keeps the state the exception left.\<close>

definition singleFinish :: "real \<Rightarrow> graph outcome \<Rightarrow> graph" where
  "singleFinish t r =
     (case r of
        Done s1 \<Rightarrow> s1\<lparr>externalActive := True, lastExternalSec := t\<rparr>
      | Thrown s1 \<Rightarrow> s1)"

definition pushGraphSamples :: "payload option \<Rightarrow> real \<Rightarrow> graph \<Rightarrow> graph" where
  "pushGraphSamples p clock s =
     (case p of
        None \<Rightarrow> s
      | Some payload \<Rightarrow>
          (case relativeTime payload clock s of
             (s0, t) \<Rightarrow>
               singleFinish t
                 (case nodes payload of
                    Some vs \<Rightarrow> pushVector t vs s0
                  | None \<Rightarrow>
                      (case amps payload of
                         Some vs \<Rightarrow> pushVector t vs s0
                       | None \<Rightarrow> Done s0))))"

text \<open>The loop of \<^verbatim>\<open>window.pushGraphBatch\<close> over the frames paired with their timestamps.\<close>

fun pushFrames :: "(jsnum \<times> jsnum list) list \<Rightarrow> real \<Rightarrow> graph \<Rightarrow> graph outcome" where
  "pushFrames [] clock s = Done s"
| "pushFrames ((tk, vs) # rest) clock s =
     (case tk of
        None \<Rightarrow> pushFrames rest clock s
      | Some tAbs \<Rightarrow>
          (let tRel = (case t0Payload s of Some t0 \<Rightarrow> double (tAbs - t0) | None \<Rightarrow> clock) in
           case pushVector tRel vs s of
             Done s1 \<Rightarrow> pushFrames rest clock s1
           | Thrown s1 \<Rightarrow> Thrown s1))"

text \<open>
  \<^verbatim>\<open>window.pushGraphBatch\<close>. Before the loop: one observation for the estimator (the
  first timestamp), and the origin of the session's clock.
\<close>

definition batchStart :: "jsnum list \<Rightarrow> jsnum list list \<Rightarrow> graph \<Rightarrow> graph" where
  "batchStart tsl fl s =
     (let nFrames = min (length tsl) (length fl);
          s1 = (if nFrames > 0 then estimateSampleRate (tsl ! 0) s else s)
      in if t0Payload s1 = None \<and> nFrames > 0 \<and> tsl ! 0 \<noteq> None
         then s1\<lparr>t0Payload := tsl ! 0\<rparr> else s1)"

definition batchFinish :: "graph outcome \<Rightarrow> graph" where
  "batchFinish r =
     (case r of
        Done s3 \<Rightarrow>
          s3\<lparr>externalActive := True,
             lastExternalSec :=
               (case dataByNode s3 0 of
                  Some (p # ps) \<Rightarrow> st (last (p # ps))
                | _ \<Rightarrow> lastExternalSec s3)\<rparr>
      | Thrown s3 \<Rightarrow> s3)"

definition pushGraphBatch :: "batch option \<Rightarrow> real \<Rightarrow> graph \<Rightarrow> graph" where
  "pushGraphBatch p clock s =
     (case p of
        None \<Rightarrow> s
      | Some b \<Rightarrow>
          (case (ts b, frames b) of
             (Some tsl, Some fl) \<Rightarrow>
               batchFinish (pushFrames (zip tsl fl) clock (batchStart tsl fl s))
           | _ \<Rightarrow> s))"

section \<open>The 3D scene module\<close>

subsection \<open>State\<close>

type_synonym vec3 = "real \<times> real \<times> real"

text \<open>A mesh of the \<^verbatim>\<open>nodes\<close> array: its position and the HSL colour of its material.\<close>

record mesh =
  position :: vec3
  color :: "real \<times> real \<times> real"

record sprite =
  spritePosition :: vec3
  spriteVisible :: bool

datatype layout = Grid | Helix | Sphere | Cylinder

text \<open>
  The variables of the second closure: \<open>meshes\<close> is its array \<^verbatim>\<open>nodes\<close>,
  \<open>nodeCount3\<close> its own \<^verbatim>\<open>nodeCount\<close>, \<open>displayLayout\<close> is \<^verbatim>\<open>config.display.layout\<close>.
  The waveform arrays are written by index, hence maps; \<open>latestAmplitudes\<close> is a
  \<^verbatim>\<open>Float32Array\<close>.
\<close>

record scene =
  cols :: nat
  rows :: nat
  displayLayout :: layout
  nodeCount3 :: nat
  meshes :: "mesh list"
  labels :: "sprite list"
  basePositions :: "vec3 list"
  amplitudes :: "nat \<rightharpoonup> real"
  freqs :: "nat \<rightharpoonup> real"
  phases :: "nat \<rightharpoonup> real"
  latestAmplitudes :: "float32 list"
  hasLiveData :: bool
  lastUpdateMs :: real

definition spacing :: real where
  "spacing = 5 / 100"

definition radius :: "scene \<Rightarrow> real" where
  "radius s =
     (let width = (real (cols s) - 1) * spacing;
          height = (real (rows s) - 1) * spacing;
          m = max width height
      in if m = 0 then 1 / 10 else m)"

text \<open>
  The point on the circle given to node \<open>i\<close> of \<open>n\<close>; \<^verbatim>\<open>mesh.position.set(x, z, y)\<close>
  with \<open>y = 0\<close>.
\<close>

definition circlePosition :: "real \<Rightarrow> nat \<Rightarrow> nat \<Rightarrow> vec3" where
  "circlePosition r i n =
     (let t = (real i / real n) * pi * 2
      in (cos t * r * (1 / 2), sin t * r * (1 / 2), 0))"

definition newMesh :: "real \<Rightarrow> nat \<Rightarrow> nat \<Rightarrow> mesh" where
  "newMesh r i n =
     \<lparr>position = circlePosition r i n, color = (real i / real n, 6 / 10, 55 / 100)\<rparr>"

definition newLabel :: "real \<Rightarrow> nat \<Rightarrow> nat \<Rightarrow> sprite" where
  "newLabel r i n =
     (case circlePosition r i n of
        (x, z, y) \<Rightarrow> \<lparr>spritePosition = (x, z + 15 / 1000, y), spriteVisible = False\<rparr>)"

text \<open>
  The state after the closure has run with \<^verbatim>\<open>config.json\<close> giving a node count \<open>cnt\<close>
  (or none) and the lattice \<open>c\<close> by \<open>r\<close>; the surface is switched off in the source, so
  the nodes start on the circle.
\<close>

definition init_scene :: "nat \<Rightarrow> nat \<Rightarrow> nat option \<Rightarrow> scene" where
  "init_scene c r cnt =
     (let n = (case cnt of Some k \<Rightarrow> k | None \<Rightarrow> c * r);
          s0 = \<lparr>cols = c, rows = r, displayLayout = Helix, nodeCount3 = n,
                meshes = [], labels = [], basePositions = [],
                amplitudes = Map.empty, freqs = Map.empty, phases = Map.empty,
                latestAmplitudes = replicate n 0, hasLiveData = False, lastUpdateMs = 0\<rparr>
      in s0\<lparr>meshes := map (\<lambda>i. newMesh (radius s0) i n) [0..<n],
             labels := map (\<lambda>i. newLabel (radius s0) i n) [0..<n],
             basePositions := map (\<lambda>i. circlePosition (radius s0) i n) [0..<n],
             amplitudes := (\<lambda>i. if i < n then Some (6 / 1000 + 4 / 1000 * (real i / real n))
                                  else None),
             freqs := (\<lambda>i. if i < n then Some (1 / 2 + 5 / 100 * real i) else None),
             phases := (\<lambda>i. if i < n then Some ((real i / real n) * pi * 2) else None)\<rparr>)"

subsection \<open>Layouts\<close>








subsection \<open>Capacity and latest amplitudes\<close>

text \<open>One turn of the loop of the second \<^verbatim>\<open>ensureNodeCapacity\<close>.\<close>

definition growNode3 :: "nat \<Rightarrow> nat \<Rightarrow> scene \<Rightarrow> scene" where
  "growNode3 newCount i s =
     s\<lparr>meshes := meshes s @ [newMesh (radius s) i newCount],
       basePositions := basePositions s @ [circlePosition (radius s) i newCount],
       labels := labels s @ [newLabel (radius s) i newCount],
       amplitudes := (amplitudes s)(i \<mapsto> 6 / 1000 + 4 / 1000 * (real i / real newCount)),
       freqs := (freqs s)(i \<mapsto> 1 / 2 + 5 / 100 * real i),
       phases := (phases s)(i \<mapsto> (real i / real newCount) * pi * 2)\<rparr>"

text \<open>
  \<^verbatim>\<open>next.set(latestAmplitudes)\<close> raises a \<^verbatim>\<open>RangeError\<close> when the old vector is longer
  than the new one.
\<close>

definition ensureNodeCapacity3 :: "nat \<Rightarrow> scene \<Rightarrow> scene outcome" where
  "ensureNodeCapacity3 newCount s =
     (if newCount \<le> nodeCount3 s then Done s
      else
        (let s1 = fold (growNode3 newCount) [nodeCount3 s..<newCount] s in
         if length (latestAmplitudes s1) > newCount then Thrown s1
         else Done (s1\<lparr>latestAmplitudes :=
                          latestAmplitudes s1
                            @ replicate (newCount - length (latestAmplitudes s1)) 0,
                        nodeCount3 := newCount\<rparr>)))"

text \<open>\<^verbatim>\<open>window.setNodeCount\<close>; \<open>None\<close> is a count that is not a finite number.\<close>

definition setNodeCount :: "nat option \<Rightarrow> scene \<Rightarrow> scene" where
  "setNodeCount n s =
     (case n of
        None \<Rightarrow> s
      | Some k \<Rightarrow> (case ensureNodeCapacity3 k s of Done s1 \<Rightarrow> s1 | Thrown s1 \<Rightarrow> s1))"

text \<open>
  \<^verbatim>\<open>x | 0\<close>: the number truncated toward zero and wrapped into the signed 32-bit range;
  a value that is not finite gives 0.
\<close>

definition ToInt32 :: "jsnum \<Rightarrow> int" where
  "ToInt32 v =
     (case v of
        None \<Rightarrow> 0
      | Some x \<Rightarrow>
          (let n = (if x \<ge> 0 then \<lfloor>x\<rfloor> else \<lceil>x\<rceil>)
           in (n + 2 ^ 31) mod 2 ^ 32 - 2 ^ 31))"

text \<open>
  An entry of \<^verbatim>\<open>payload.nodes\<close> that has properties: its \<^verbatim>\<open>id\<close> and
  \<^verbatim>\<open>Number(amplitude)\<close> (\<open>None\<close> when absent or not a finite number).
\<close>

record item =
  item_id :: jsnum
  item_amplitude :: jsnum

text \<open>
  The body of the loop of \<^verbatim>\<open>window.updateNodes\<close> for one such entry. The store into the
  \<^verbatim>\<open>Float32Array\<close> rounds the amplitude to single precision.
\<close>

definition updateItem :: "item \<Rightarrow> scene \<Rightarrow> scene" where
  "updateItem it s =
     (let ident = ToInt32 (item_id it) in
      if ident \<ge> 0 \<and> ident < int (nodeCount3 s) then
        (case item_amplitude it of
           Some a \<Rightarrow> s\<lparr>latestAmplitudes := (latestAmplitudes s)[nat ident := toFloat32 a]\<rparr>
         | None \<Rightarrow> s)
      else s)"

text \<open>
  The loop over the entries. An entry that is \<^verbatim>\<open>null\<close> or \<^verbatim>\<open>undefined\<close> (\<open>None\<close>)
  makes \<^verbatim>\<open>item.id\<close> raise a \<^verbatim>\<open>TypeError\<close>, which ends the loop.
\<close>

fun updateLoop :: "item option list \<Rightarrow> scene \<Rightarrow> scene outcome" where
  "updateLoop [] s = Done s"
| "updateLoop (None # its) s = Thrown s"
| "updateLoop (Some it # its) s = updateLoop its (updateItem it s)"

text \<open>
  \<^verbatim>\<open>window.updateNodes\<close>; \<open>None\<close> is a payload without an array \<^verbatim>\<open>nodes\<close>, \<open>nowMs\<close> the
  reading of \<^verbatim>\<open>performance.now()\<close>. The \<^verbatim>\<open>catch\<close> keeps the state the exception left:
  the two assignments after the loop are not reached.
\<close>

definition updateNodes :: "item option list option \<Rightarrow> real \<Rightarrow> scene \<Rightarrow> scene" where
  "updateNodes p nowMs s =
     (case p of
        None \<Rightarrow> s
      | Some its \<Rightarrow>
          (case updateLoop its s of
             Done s1 \<Rightarrow> s1\<lparr>hasLiveData := True, lastUpdateMs := nowMs\<rparr>
           | Thrown s1 \<Rightarrow> s1))"

section \<open>Sessions\<close>

text \<open>The page holds both modules; a session is a sequence of calls and operator actions.\<close>

record viewer =
  graph2d :: graph
  scene3d :: scene

fun state_of :: "'a outcome \<Rightarrow> 'a" where
  "state_of (Done s) = s"
| "state_of (Thrown s) = s"

fun is_Done :: "'a outcome \<Rightarrow> bool" where
  "is_Done (Done s) = True"
| "is_Done (Thrown s) = False"

datatype event =
    PushSingle "payload option" real
  | PushBatch "batch option" real
  | WinInput jsnum
  | ToggleClick
  | ModalOkClick "nat list"
  | ClearClick
  | SetNodeCount "nat option"
  | UpdateNodes "item option list option" real

fun step :: "event \<Rightarrow> viewer \<Rightarrow> viewer" where
  "step (PushSingle p clock) v = v\<lparr>graph2d := pushGraphSamples p clock (graph2d v)\<rparr>"
| "step (PushBatch p clock) v = v\<lparr>graph2d := pushGraphBatch p clock (graph2d v)\<rparr>"
| "step (WinInput x) v = v\<lparr>graph2d := winInput x (graph2d v)\<rparr>"
| "step ToggleClick v = v\<lparr>graph2d := (graph2d v)\<lparr>running := \<not> running (graph2d v)\<rparr>\<rparr>"
| "step (ModalOkClick checked) v = v\<lparr>graph2d := modalOk checked (graph2d v)\<rparr>"
| "step ClearClick v = v\<lparr>graph2d := state_of (clearAllData (graph2d v))\<rparr>"
| "step (SetNodeCount n) v = v\<lparr>scene3d := setNodeCount n (scene3d v)\<rparr>"
| "step (UpdateNodes p nowMs) v = v\<lparr>scene3d := updateNodes p nowMs (scene3d v)\<rparr>"

fun run :: "event list \<Rightarrow> viewer \<Rightarrow> viewer" where
  "run [] v = v"
| "run (e # es) v = run es (step e v)"

section \<open>Notions used to state the properties\<close>




text \<open>A sequence of \<^verbatim>\<open>estimateSampleRate\<close> calls, and the estimator they leave in a fresh session.\<close>

fun observeAll :: "jsnum list \<Rightarrow> graph \<Rightarrow> graph" where
  "observeAll [] s = s"
| "observeAll (x # xs) s = observeAll xs (estimateSampleRate x s)"

definition observed :: "real \<Rightarrow> jsnum list \<Rightarrow> estimator" where
  "observed w xs = sampleRateEstimator (observeAll xs (init_graph w))"

text \<open>
  The intervals a sequence of calls should store, in order: the differences of consecutive
  finite timestamps that lie strictly between 0 and 10 (\<open>lt\<close> is the last finite timestamp
  seen before the sequence, if any).
\<close>

fun acceptedIntervals :: "real option \<Rightarrow> jsnum list \<Rightarrow> real list" where
  "acceptedIntervals lt [] = []"
| "acceptedIntervals lt (None # xs) = acceptedIntervals lt xs"
| "acceptedIntervals None (Some x # xs) = acceptedIntervals (Some x) xs"
| "acceptedIntervals (Some l) (Some x # xs) =
     (if 0 < x - l \<and> x - l < 10 then [x - l] else []) @ acceptedIntervals (Some x) xs"

definition mostRecent :: "nat \<Rightarrow> 'a list \<Rightarrow> 'a list" where
  "mostRecent k xs = drop (length xs - k) xs"

definition clamp :: "real \<Rightarrow> real \<Rightarrow> real \<Rightarrow> real" where
  "clamp lo hi x = min hi (max lo x)"

text \<open>The nearest multiple of one half (a tie going up).\<close>

definition nearestHalf :: "real \<Rightarrow> real" where
  "nearestHalf x = of_int \<lfloor>x * 2 + 1 / 2\<rfloor> / 2"

text \<open>What the estimate has to be once ten intervals are stored.\<close>

definition estimateOk :: "estimator \<Rightarrow> bool" where
  "estimateOk e =
     (estimatedRate e = 1 / median (sampleTimes e) \<and>
      recommendedWindow e = nearestHalf (clamp (1 / 2) 60 (300 / estimatedRate e)))"

definition estInv :: "estimator \<Rightarrow> bool" where
  "estInv e =
     (length (sampleTimes e) \<le> 20 \<and> (\<forall>x \<in> set (sampleTimes e). 0 < x \<and> x < 10) \<and>
      maxSamplesPerNode e = 300 \<and>
      (length (sampleTimes e) \<ge> 10 \<longrightarrow> estimateOk e))"

text \<open>
  \<open>n\<close> timestamps from \<open>t\<close> on whose gaps alternate between \<open>a\<close> and \<open>b\<close>, and the
  \<open>n\<close> first gaps of such a sequence.
\<close>

fun alternating :: "real \<Rightarrow> real \<Rightarrow> nat \<Rightarrow> real \<Rightarrow> jsnum list" where
  "alternating a b 0 t = []"
| "alternating a b (Suc n) t = Some t # alternating b a n (t + a)"

fun gaps :: "real \<Rightarrow> real \<Rightarrow> nat \<Rightarrow> real list" where
  "gaps a b 0 = []"
| "gaps a b (Suc n) = a # gaps b a n"

text \<open>
  The same for the estimator in double precision: a sequence of calls, the estimator they
  leave in a fresh session, and the intervals they should store (each the double difference
  of two consecutive finite timestamps).
\<close>

fun observeAll64 :: "jsnum list \<Rightarrow> page64 \<Rightarrow> page64" where
  "observeAll64 [] s = s"
| "observeAll64 (x # xs) s = observeAll64 xs (estimateSampleRate64 x s)"

definition observed64 :: "real \<Rightarrow> jsnum list \<Rightarrow> estimator64" where
  "observed64 w xs = sampleRateEstimator64 (observeAll64 xs (init_page64 w))"

fun acceptedIntervals64 :: "real option \<Rightarrow> jsnum list \<Rightarrow> real list" where
  "acceptedIntervals64 lt [] = []"
| "acceptedIntervals64 lt (None # xs) = acceptedIntervals64 lt xs"
| "acceptedIntervals64 None (Some x # xs) = acceptedIntervals64 (Some x) xs"
| "acceptedIntervals64 (Some l) (Some x # xs) =
     (case finite64 (x - l) of
        None \<Rightarrow> []
      | Some d \<Rightarrow> if 0 < d \<and> d < 10 then [d] else []) @ acceptedIntervals64 (Some x) xs"

text \<open>
  The upper median of a list: the element at index \<open>length div 2\<close> in ascending order. The
  median as it is usually defined, and as the specification words it: the middle element for
  an odd count, the mean of the two middle elements for an even count.
\<close>

definition upperMedian :: "real list \<Rightarrow> real" where
  "upperMedian xs = sort xs ! (length xs div 2)"

definition conventionalMedian :: "real list \<Rightarrow> real" where
  "conventionalMedian xs =
     (if even (length xs)
      then (sort xs ! (length xs div 2 - 1) + sort xs ! (length xs div 2)) / 2
      else sort xs ! (length xs div 2))"

text \<open>
  The window for a rate, as the specification words it, in doubles: the budget of 300
  samples divided by the rate (0 for an infinite rate), clamped to \<open>[0.5, 60]\<close> and rounded
  to the nearest half.
\<close>

definition windowFor :: "jsnum \<Rightarrow> real" where
  "windowFor rate =
     nearestHalf (clamp (1 / 2) 60 (case rate of None \<Rightarrow> 0 | Some r \<Rightarrow> double (300 / r)))"

text \<open>What the estimate in double precision has to be once ten intervals are stored.\<close>

definition estimateOk64 :: "estimator64 \<Rightarrow> bool" where
  "estimateOk64 e =
     (estimatedRate64 e = finite64 (1 / upperMedian (sampleTimes64 e)) \<and>
      recommendedWindow64 e = Some (windowFor (estimatedRate64 e)))"

definition estInv64 :: "estimator64 \<Rightarrow> bool" where
  "estInv64 e =
     (length (sampleTimes64 e) \<le> 20 \<and> (\<forall>x \<in> set (sampleTimes64 e). 0 < x \<and> x < 10) \<and>
      maxSamplesPerNode64 e = 300 \<and>
      (length (sampleTimes64 e) \<ge> 10 \<longrightarrow> estimateOk64 e))"

text \<open>\<open>2 n\<close> timestamps that go back and forth between 0 and \<open>m\<close>.\<close>

fun toggling :: "real \<Rightarrow> nat \<Rightarrow> jsnum list" where
  "toggling m 0 = []"
| "toggling m (Suc n) = Some 0 # Some m # toggling m n"

text \<open>
  The number of steps of a session, other than the operator's window input, that change the
  display window.
\<close>

fun isWinInput :: "event \<Rightarrow> bool" where
  "isWinInput (WinInput x) = True"
| "isWinInput e = False"

fun autoChanges :: "event list \<Rightarrow> viewer \<Rightarrow> nat" where
  "autoChanges [] v = 0"
| "autoChanges (e # es) v =
     (if \<not> isWinInput e \<and> windowSec (graph2d (step e v)) \<noteq> windowSec (graph2d v)
      then 1 else 0) + autoChanges es (step e v)"

text \<open>
  A step that leaves the estimator and the display window as they were, and a step in which
  the one-shot adjustment fires.
\<close>

definition sameWindow :: "graph \<Rightarrow> graph \<Rightarrow> bool" where
  "sameWindow s s' =
     (sampleRateEstimator s' = sampleRateEstimator s \<and> windowSec s' = windowSec s)"

definition adjusted :: "graph \<Rightarrow> graph \<Rightarrow> bool" where
  "adjusted s s' =
     (\<not> autoAdjusted (sampleRateEstimator s) \<and> autoAdjusted (sampleRateEstimator s') \<and>
      windowSec s' = recommendedWindow (sampleRateEstimator s') \<and>
      windowSec s - recommendedWindow (sampleRateEstimator s') > 1)"

text \<open>
  A state with nine intervals of 0.1 seconds stored, the last timestamp 0 and a display window
  of 60 seconds, and a batch of one (empty) frame at time 0.1.
\<close>

definition primed :: viewer where
  "primed =
     \<lparr>graph2d = (init_graph 60)\<lparr>sampleRateEstimator :=
         init_estimator\<lparr>lastTime := Some 0, sampleTimes := replicate 9 (1 / 10)\<rparr>\<rparr>,
      scene3d = init_scene 3 5 None\<rparr>"

definition tick :: event where
  "tick = PushBatch (Some \<lparr>ts = Some [Some (1 / 10)], frames = Some [[]]\<rparr>) 0"

text \<open>A fresh page: both modules as they start, with \<open>w\<close> in the window input.\<close>

definition fresh :: "real \<Rightarrow> viewer" where
  "fresh w = \<lparr>graph2d = init_graph w, scene3d = init_scene 3 5 None\<rparr>"

text \<open>A payload of \<^verbatim>\<open>pushGraphSamples\<close> with a timestamp and the amplitudes of two nodes.\<close>

definition twoNodes :: "real \<Rightarrow> real \<Rightarrow> real \<Rightarrow> payload option" where
  "twoNodes x a b = Some \<lparr>timestamp = Some x, nodes = Some [Some a, Some b], amps = None\<rparr>"

text \<open>
  From index \<open>i\<close> on, every channel below the channel count has a buffer and a row (so that
  \<^verbatim>\<open>clearAllData\<close> raises nothing), and what the clearing loop from \<open>i\<close> on has to leave.
\<close>

definition clearable :: "nat \<Rightarrow> graph \<Rightarrow> bool" where
  "clearable i s =
     (\<forall>j. i \<le> j \<and> j < nodeCount s \<longrightarrow> dataByNode s j \<noteq> None \<and> j < length (rowsEls s))"

definition cleared :: "nat \<Rightarrow> graph \<Rightarrow> graph \<Rightarrow> bool" where
  "cleared i s s' =
     (nodeCount s' = nodeCount s \<and> visibleSet s' = visibleSet s \<and>
      length (rowsEls s') = length (rowsEls s) \<and>
      map display (rowsEls s') = map display (rowsEls s) \<and>
      (\<forall>j. dataByNode s' j = (if i \<le> j \<and> j < nodeCount s then Some [] else dataByNode s j)) \<and>
      (\<forall>j < length (rowsEls s). painted (rowsEls s' ! j) =
          (if i \<le> j \<and> j < nodeCount s then False else painted (rowsEls s ! j))))"

text \<open>
  Two states that agree on the buffers of the channels below \<open>n\<close> and on what a push
  reads (window, cap, clock origin); a state whose channel count is \<open>n\<close>, or \<open>n + 1\<close>
  with a buffer for channel \<open>n\<close>; and a batch with every frame cut to its first \<open>n\<close>
  amplitudes.
\<close>

definition agreeBelow :: "nat \<Rightarrow> graph \<Rightarrow> graph \<Rightarrow> bool" where
  "agreeBelow n sA sB =
     ((\<forall>i < n. dataByNode sA i = dataByNode sB i) \<and> windowSec sA = windowSec sB \<and>
      maxSamplesPerNode (sampleRateEstimator sA) = maxSamplesPerNode (sampleRateEstimator sB) \<and>
      t0Payload sA = t0Payload sB)"

definition grown :: "nat \<Rightarrow> graph \<Rightarrow> bool" where
  "grown n s = (nodeCount s = n \<or> (nodeCount s = Suc n \<and> dataByNode s n \<noteq> None))"

definition narrowed :: "nat \<Rightarrow> batch \<Rightarrow> batch" where
  "narrowed n b = b\<lparr>frames := map_option (map (take n)) (frames b)\<rparr>"

text \<open>A batch of one frame with 16 amplitudes.\<close>

definition wide :: batch where
  "wide = \<lparr>ts = Some [Some 0], frames = Some [replicate 16 (Some 1)]\<rparr>"

text \<open>The arrays of the 3D module that are indexed by node all have the node count as length.\<close>

definition aligned :: "scene \<Rightarrow> bool" where
  "aligned s =
     (length (meshes s) = nodeCount3 s \<and> length (basePositions s) = nodeCount3 s \<and>
      length (labels s) = nodeCount3 s \<and> length (latestAmplitudes s) = nodeCount3 s)"


text \<open>A page on which one payload of two nodes has been taken in.\<close>

definition played :: viewer where
  "played = \<lparr>graph2d = pushGraphSamples (twoNodes 100 (1 / 100) (- (2 / 100))) 0 (init_graph 5),
              scene3d = init_scene 3 5 None\<rparr>"

section \<open>Rounding\<close>

text \<open>
  What the rounding functions give: the nearest integer, the value itself where it is
  representable, bounds that powers of two keep, and the distance to the exact value.
\<close>

lemma rne_near: "\<bar>of_int (rne y) - y\<bar> \<le> 1 / 2"
  unfolding rne_def Let_def by (auto; linarith)

lemma rne_of_int: "rne (of_int k) = k"
  by (simp add: rne_def)

lemma rne_le: "y \<le> of_int n \<Longrightarrow> rne y \<le> n"
proof -
  assume a: "y \<le> of_int n"
  then have f: "\<lfloor>y\<rfloor> \<le> n" by linarith
  show ?thesis
  proof (cases "\<lfloor>y\<rfloor> = n")
    case True
    then have "y = of_int n" using a by linarith
    then show ?thesis by (simp add: rne_of_int)
  next
    case False
    with f have "\<lfloor>y\<rfloor> + 1 \<le> n" by simp
    then show ?thesis unfolding rne_def Let_def by auto
  qed
qed

lemma rne_ge: "of_int n \<le> y \<Longrightarrow> n \<le> rne y"
proof -
  assume "of_int n \<le> y"
  then have "n \<le> \<lfloor>y\<rfloor>" by (simp add: le_floor_iff)
  then show ?thesis unfolding rne_def Let_def by auto
qed

lemma binaryRound_zero: "binaryRound p emin 0 = 0"
  by (simp add: binaryRound_def)

lemma binaryRound_at:
  assumes "2 powr of_int e \<le> \<bar>x\<bar>" and "\<bar>x\<bar> < 2 powr (of_int e + 1)"
  shows "binaryRound p emin x =
           of_int (rne (x / 2 powr (of_int (max e emin) - (real p - 1))))
             * 2 powr (of_int (max e emin) - (real p - 1))"
proof -
  have "0 < (2::real) powr of_int e" by simp
  with assms(1) have pos: "0 < \<bar>x\<bar>" by linarith
  then have nz: "x \<noteq> 0" by simp
  have "\<lfloor>log 2 \<bar>x\<bar>\<rfloor> = e"
    using assms pos by (simp add: floor_log_eq_powr_iff)
  with nz show ?thesis by (simp add: binaryRound_def Let_def)
qed

lemma pow2_int: "0 \<le> j \<Longrightarrow> (2::real) powr of_int j = of_int (2 ^ nat j)"
  by (simp add: powr_real_of_int)

lemma binaryRound_le_pow2:
  assumes "0 < x" and "x \<le> 2 powr of_int k" and "emin \<le> k" and "1 \<le> p"
  shows "binaryRound p emin x \<le> 2 powr of_int k"
proof -
  define e where "e = max \<lfloor>log 2 \<bar>x\<bar>\<rfloor> emin"
  define u :: real where "u = 2 powr (of_int e - (real p - 1))"
  define j where "j = k - e + (int p - 1)"
  have "log 2 x \<le> of_int k" using assms(1,2) by (simp add: log_le_iff)
  then have "\<lfloor>log 2 x\<rfloor> \<le> k" by linarith
  then have ek: "e \<le> k" using assms(1,3) by (simp add: e_def)
  then have j0: "0 \<le> j" using assms(4) by (simp add: j_def)
  have upos: "0 < u" by (simp add: u_def)
  have "2 powr of_int k = u * 2 powr of_int j"
    using assms(4) by (simp add: u_def j_def powr_add[symmetric] of_nat_diff)
  then have ku: "2 powr of_int k = u * of_int (2 ^ nat j)"
    using pow2_int[OF j0] by simp
  then have "x / u \<le> of_int (2 ^ nat j)"
    using assms(2) upos by (simp add: field_simps)
  then have "rne (x / u) \<le> 2 ^ nat j" by (rule rne_le)
  then have "real_of_int (rne (x / u)) \<le> of_int (2 ^ nat j)" by linarith
  then have "of_int (rne (x / u)) * u \<le> of_int (2 ^ nat j) * u"
    using upos by (simp only: mult_le_cancel_right_pos)
  moreover have "binaryRound p emin x = of_int (rne (x / u)) * u"
    using assms(1) by (simp add: binaryRound_def Let_def e_def u_def)
  ultimately show ?thesis by (simp add: ku mult.commute)
qed

lemma binaryRound_ge_pow2:
  assumes "0 < x" and "2 powr of_int k \<le> x" and "emin - (int p - 1) \<le> k" and "1 \<le> p"
  shows "2 powr of_int k \<le> binaryRound p emin x"
proof -
  define f where "f = \<lfloor>log 2 \<bar>x\<bar>\<rfloor>"
  define e where "e = max f emin"
  define u :: real where "u = 2 powr (of_int e - (real p - 1))"
  define k' where "k' = (if emin \<le> f then f else k)"
  define j where "j = k' - e + (int p - 1)"
  have "of_int k \<le> log 2 x" using assms(1,2) by (simp add: le_log_iff)
  then have kf: "k \<le> f" using assms(1) by (simp add: f_def le_floor_iff)
  have "of_int f \<le> log 2 x" using assms(1) by (simp add: f_def)
  then have "2 powr of_int f \<le> 2 powr log 2 x" by simp
  then have fx: "2 powr of_int f \<le> x" using assms(1) by simp
  have k'x: "2 powr of_int k' \<le> x" using fx assms(2) by (simp add: k'_def)
  have kk': "k \<le> k'" using kf by (simp add: k'_def)
  have j0: "0 \<le> j" using assms(3,4) by (auto simp: j_def k'_def e_def)
  have upos: "0 < u" by (simp add: u_def)
  have "2 powr of_int k' = u * 2 powr of_int j"
    using assms(4) by (simp add: u_def j_def powr_add[symmetric] of_nat_diff)
  then have ku: "2 powr of_int k' = u * of_int (2 ^ nat j)"
    using pow2_int[OF j0] by simp
  then have "of_int (2 ^ nat j) \<le> x / u"
    using k'x upos by (simp add: field_simps)
  then have "2 ^ nat j \<le> rne (x / u)" by (rule rne_ge)
  then have "of_int (2 ^ nat j) \<le> real_of_int (rne (x / u))" by linarith
  then have "of_int (2 ^ nat j) * u \<le> of_int (rne (x / u)) * u"
    using upos by (simp only: mult_le_cancel_right_pos)
  moreover have "binaryRound p emin x = of_int (rne (x / u)) * u"
    using assms(1) by (simp add: binaryRound_def Let_def e_def f_def u_def)
  moreover have "(2::real) powr of_int k \<le> 2 powr of_int k'" using kk' by simp
  ultimately show ?thesis by (simp add: ku mult.commute)
qed

lemma binaryRound_error:
  assumes "x \<noteq> 0"
  shows "\<bar>binaryRound p emin x - x\<bar>
           \<le> 2 powr (of_int (max \<lfloor>log 2 \<bar>x\<bar>\<rfloor> emin) - (real p - 1)) / 2"
proof -
  define u :: real where "u = 2 powr (of_int (max \<lfloor>log 2 \<bar>x\<bar>\<rfloor> emin) - (real p - 1))"
  have upos: "0 < u" by (simp add: u_def)
  have b: "binaryRound p emin x = of_int (rne (x / u)) * u"
    using assms by (simp add: binaryRound_def Let_def u_def)
  have "\<bar>of_int (rne (x / u)) - x / u\<bar> \<le> 1 / 2" by (rule rne_near)
  then have "\<bar>of_int (rne (x / u)) - x / u\<bar> * u \<le> 1 / 2 * u"
    using upos by (simp only: mult_le_cancel_right_pos)
  moreover have "\<bar>of_int (rne (x / u)) - x / u\<bar> * u = \<bar>of_int (rne (x / u)) * u - x\<bar>"
  proof -
    have "\<bar>of_int (rne (x / u)) - x / u\<bar> * u = \<bar>(of_int (rne (x / u)) - x / u) * u\<bar>"
      using upos by (simp add: abs_mult)
    also have "(of_int (rne (x / u)) - x / u) * u = of_int (rne (x / u)) * u - x"
      using upos by (simp add: field_simps)
    finally show ?thesis .
  qed
  ultimately show ?thesis unfolding b u_def[symmetric] by simp
qed

lemma double_zero: "double 0 = 0"
  by (simp add: double_def binaryRound_zero)

lemma binaryRound_nonneg: "0 \<le> x \<Longrightarrow> 0 \<le> binaryRound p emin x"
proof (cases "x = 0")
  case True
  then show ?thesis by (simp add: binaryRound_zero)
next
  case False
  assume "0 \<le> x"
  define u :: real where "u = 2 powr (of_int (max \<lfloor>log 2 \<bar>x\<bar>\<rfloor> emin) - (real p - 1))"
  have upos: "0 < u" by (simp add: u_def)
  with \<open>0 \<le> x\<close> have "of_int 0 \<le> x / u" by simp
  then have "0 \<le> rne (x / u)" by (rule rne_ge)
  then have "0 \<le> of_int (rne (x / u)) * u" using upos by simp
  with False show ?thesis by (simp add: binaryRound_def Let_def u_def)
qed

lemma binaryRound_nonpos: "x \<le> 0 \<Longrightarrow> binaryRound p emin x \<le> 0"
proof (cases "x = 0")
  case True
  then show ?thesis by (simp add: binaryRound_zero)
next
  case False
  assume "x \<le> 0"
  define u :: real where "u = 2 powr (of_int (max \<lfloor>log 2 \<bar>x\<bar>\<rfloor> emin) - (real p - 1))"
  have upos: "0 < u" by (simp add: u_def)
  with \<open>x \<le> 0\<close> have "x / u \<le> of_int 0" by (simp add: divide_le_0_iff)
  then have "rne (x / u) \<le> 0" by (rule rne_le)
  then have "of_int (rne (x / u)) * u \<le> 0" using upos by (simp add: mult_le_0_iff)
  with False show ?thesis by (simp add: binaryRound_def Let_def u_def)
qed

lemma finite64_small: "\<bar>double x\<bar> \<le> 2 ^ 13 \<Longrightarrow> finite64 x = Some (double x)"
proof -
  assume "\<bar>double x\<bar> \<le> 2 ^ 13"
  also have "(2 :: real) ^ 13 < 2 ^ 1024" by (rule power_strict_increasing) simp_all
  finally show ?thesis by (simp add: finite64_def)
qed

lemma double_at:
  assumes "2 powr of_int e \<le> \<bar>x\<bar>" and "\<bar>x\<bar> < 2 powr (of_int e + 1)" and "- 1022 \<le> e"
  shows "double x = of_int (rne (x / 2 powr (of_int e - 52))) * 2 powr (of_int e - 52)"
proof -
  have m: "max e (- 1022) = e" using assms(3) by simp
  have r: "real 53 - 1 = 52" by simp
  show ?thesis
    unfolding double_def binaryRound_at[OF assms(1,2), of 53 "- 1022"] m r ..
qed

lemma double_exact:
  assumes "2 powr of_int e \<le> \<bar>x\<bar>" and "\<bar>x\<bar> < 2 powr (of_int e + 1)" and "- 1022 \<le> e"
    and "x / 2 powr (of_int e - 52) = of_int k"
  shows "double x = x"
proof -
  have "double x = of_int (rne (of_int k)) * 2 powr (of_int e - 52)"
    unfolding double_at[OF assms(1-3)] assms(4) ..
  also have "\<dots> = x / 2 powr (of_int e - 52) * 2 powr (of_int e - 52)"
    by (simp add: rne_of_int assms(4))
  also have "\<dots> = x" by simp
  finally show ?thesis .
qed

lemma finite64_nonpos: "x \<le> 0 \<Longrightarrow> finite64 x = Some d \<Longrightarrow> d \<le> 0"
  using binaryRound_nonpos[of x 53 "- 1022"]
  by (simp add: finite64_def double_def split: if_splits)

section \<open>The time-window store\<close>








section \<open>The sample-rate estimator\<close>

lemma median_in_set: "xs \<noteq> [] \<Longrightarrow> median xs \<in> set xs"
proof -
  assume "xs \<noteq> []"
  then have "length (sort xs) div 2 < length (sort xs)" by (cases xs) auto
  then have "sort xs ! (length (sort xs) div 2) \<in> set (sort xs)" by (rule nth_mem)
  then show ?thesis by (simp add: median_def)
qed

lemma updateEstimate_fields:
  "sampleTimes (sampleRateEstimator (updateEstimate s)) = sampleTimes (sampleRateEstimator s)"
  "lastTime (sampleRateEstimator (updateEstimate s)) = lastTime (sampleRateEstimator s)"
  "maxSamplesPerNode (sampleRateEstimator (updateEstimate s)) = maxSamplesPerNode (sampleRateEstimator s)"
  by (simp_all add: updateEstimate_def Let_def)

lemma mostRecent_push:
  assumes "length h \<le> 20"
  shows "(if length (h @ [x]) > 20 then tl (h @ [x]) else h @ [x]) = mostRecent 20 (h @ [x])"
proof (cases "length h = 20")
  case True
  then have "length (h @ [x]) - 20 = Suc 0" by simp
  then have "mostRecent 20 (h @ [x]) = drop (Suc 0) (h @ [x])"
    by (simp only: mostRecent_def)
  also have "\<dots> = tl (h @ [x])" by (simp only: drop_Suc drop_0)
  finally show ?thesis using True by simp
next
  case False
  with assms show ?thesis by (simp add: mostRecent_def)
qed

lemma updateEstimate_ok:
  assumes "length (sampleTimes (sampleRateEstimator s)) \<ge> 10"
    and "\<forall>x \<in> set (sampleTimes (sampleRateEstimator s)). 0 < x"
    and "maxSamplesPerNode (sampleRateEstimator s) = 300"
  shows "estimateOk (sampleRateEstimator (updateEstimate s))"
proof -
  have "sampleTimes (sampleRateEstimator s) \<noteq> []" using assms(1) by auto
  then have m: "median (sampleTimes (sampleRateEstimator s)) > 0"
    using median_in_set assms(2) by blast
  have r: "estimatedRate (sampleRateEstimator (updateEstimate s)) =
             1 / median (sampleTimes (sampleRateEstimator s))"
    and w: "recommendedWindow (sampleRateEstimator (updateEstimate s)) =
             recommend 300 (1 / median (sampleTimes (sampleRateEstimator s)))"
    using assms(1,3) m by (simp_all add: updateEstimate_def Let_def)
  show ?thesis
    unfolding estimateOk_def r w updateEstimate_fields
    by (simp add: recommend_def nearestHalf_def clamp_def Math_round_def)
qed

lemma sampleTimes_step:
  assumes "length (sampleTimes (sampleRateEstimator s)) \<le> 20"
  shows "sampleTimes (sampleRateEstimator (estimateSampleRate x s)) =
         mostRecent 20 (sampleTimes (sampleRateEstimator s)
                          @ acceptedIntervals (lastTime (sampleRateEstimator s)) [x])"
proof -
  have id: "mostRecent 20 (sampleTimes (sampleRateEstimator s)) = sampleTimes (sampleRateEstimator s)"
    using assms by (simp add: mostRecent_def)
  show ?thesis
  proof (cases x)
    case None
    then show ?thesis by (simp add: estimateSampleRate_def id)
  next
    case (Some now)
    show ?thesis
    proof (cases "lastTime (sampleRateEstimator s)")
      case None
      with Some show ?thesis by (simp add: estimateSampleRate_def id)
    next
      case (Some lt)
      with \<open>x = Some now\<close> show ?thesis
        using mostRecent_push[OF assms, of "now - lt"]
        by (simp add: estimateSampleRate_def recordInterval_def Let_def id updateEstimate_fields)
    qed
  qed
qed

lemma mostRecent_append:
  "mostRecent k (mostRecent k xs @ ys) = mostRecent k (xs @ ys)"
proof (cases "length xs \<le> k")
  case True
  then show ?thesis by (simp add: mostRecent_def)
next
  case False
  then have "length xs - k + (length ys + k - k) = length xs + length ys - k"
    and "length ys + k - k - k = length xs + length ys - k - length xs"
    by simp_all
  with False show ?thesis
    by (simp add: mostRecent_def add.commute)
qed

lemma lastTime_step:
  "lastTime (sampleRateEstimator (estimateSampleRate x s)) =
     (case x of None \<Rightarrow> lastTime (sampleRateEstimator s) | Some now \<Rightarrow> Some now)"
  by (simp add: estimateSampleRate_def Let_def split: option.splits)

lemma acceptedIntervals_Cons:
  "acceptedIntervals lt (x # xs) =
     acceptedIntervals lt [x]
       @ acceptedIntervals (case x of None \<Rightarrow> lt | Some now \<Rightarrow> Some now) xs"
  by (cases x; cases lt) simp_all

lemma acceptedIntervals_range: "\<forall>i \<in> set (acceptedIntervals lt xs). 0 < i \<and> i < 10"
  by (induction lt xs rule: acceptedIntervals.induct) auto

lemma estInv_step:
  assumes "estInv (sampleRateEstimator s)"
  shows "estInv (sampleRateEstimator (estimateSampleRate x s))"
proof -
  let ?e = "sampleRateEstimator s"
  from assms have len: "length (sampleTimes ?e) \<le> 20" by (simp add: estInv_def)
  show ?thesis
  proof (cases "acceptedIntervals (lastTime ?e) [x] = []")
    case True
    then have "estimateSampleRate x s = s \<or>
        (\<exists>now. estimateSampleRate x s = s\<lparr>sampleRateEstimator := ?e\<lparr>lastTime := Some now\<rparr>\<rparr>)"
      by (cases x; cases "lastTime ?e") (auto simp: estimateSampleRate_def Let_def split: if_splits)
    with assms show ?thesis by (auto simp: estInv_def estimateOk_def)
  next
    case False
    then obtain now lt where x: "x = Some now" and lt: "lastTime ?e = Some lt"
      and acc: "0 < now - lt" "now - lt < 10"
      by (cases x; cases "lastTime ?e") (auto split: if_splits)
    define times where "times = mostRecent 20 (sampleTimes ?e @ [now - lt])"
    define s1 where "s1 = s\<lparr>sampleRateEstimator := ?e\<lparr>sampleTimes := times\<rparr>\<rparr>"
    have st: "estimateSampleRate x s =
        (updateEstimate s1)\<lparr>sampleRateEstimator :=
           (sampleRateEstimator (updateEstimate s1))\<lparr>lastTime := Some now\<rparr>\<rparr>"
      using x lt acc mostRecent_push[OF len, of "now - lt"]
      by (simp add: estimateSampleRate_def recordInterval_def Let_def s1_def times_def)
    have tl: "length times \<le> 20" by (simp add: times_def mostRecent_def)
    have "set times \<subseteq> set (sampleTimes ?e @ [now - lt])"
      unfolding times_def mostRecent_def by (rule set_drop_subset)
    then have tr: "\<forall>i \<in> set times. 0 < i \<and> i < 10"
      using assms acc by (auto simp: estInv_def)
    have ms: "maxSamplesPerNode (sampleRateEstimator s1) = 300"
      using assms by (simp add: s1_def estInv_def)
    have t1: "sampleTimes (sampleRateEstimator s1) = times" by (simp add: s1_def)
    have ok: "estimateOk (sampleRateEstimator (updateEstimate s1))" if "10 \<le> length times"
      using updateEstimate_ok[of s1] that tr ms t1 by simp
    show ?thesis
      unfolding st using tl tr ms ok
      by (simp add: estInv_def estimateOk_def updateEstimate_fields t1)
  qed
qed

lemma observeAll_inv:
  "estInv (sampleRateEstimator s) \<Longrightarrow> estInv (sampleRateEstimator (observeAll xs s))"
  by (induction xs arbitrary: s) (simp_all add: estInv_step)

lemma observeAll_times:
  "length (sampleTimes (sampleRateEstimator s)) \<le> 20 \<Longrightarrow>
   sampleTimes (sampleRateEstimator (observeAll xs s)) =
     mostRecent 20 (sampleTimes (sampleRateEstimator s)
                      @ acceptedIntervals (lastTime (sampleRateEstimator s)) xs)"
proof (induction xs arbitrary: s)
  case Nil
  then show ?case by (simp add: mostRecent_def)
next
  case (Cons x xs)
  let ?s1 = "estimateSampleRate x s"
  have t1: "sampleTimes (sampleRateEstimator ?s1) =
      mostRecent 20 (sampleTimes (sampleRateEstimator s)
                       @ acceptedIntervals (lastTime (sampleRateEstimator s)) [x])"
    by (rule sampleTimes_step[OF Cons.prems])
  then have "length (sampleTimes (sampleRateEstimator ?s1)) \<le> 20"
    by (simp add: mostRecent_def)
  from Cons.IH[OF this] show ?case
    unfolding t1 lastTime_step mostRecent_append
    by (simp add: acceptedIntervals_Cons[of _ x xs])
qed

lemma estInv_init: "estInv (sampleRateEstimator (init_graph w))"
  by (simp add: estInv_def init_graph_def init_estimator_def)

lemma accepted_alternating_from:
  "0 < a \<Longrightarrow> a < 10 \<Longrightarrow> 0 < b \<Longrightarrow> b < 10 \<Longrightarrow>
   acceptedIntervals (Some t) (alternating b a n (t + a)) = gaps a b n"
proof (induction n arbitrary: a b t)
  case 0
  then show ?case by simp
next
  case (Suc n)
  from Suc.IH[of b a "t + a"] Suc.prems show ?case by simp
qed

lemma accepted_alternating:
  "0 < a \<Longrightarrow> a < 10 \<Longrightarrow> 0 < b \<Longrightarrow> b < 10 \<Longrightarrow>
   acceptedIntervals None (alternating a b (Suc n) t) = gaps a b n"
  using accepted_alternating_from[of a b t n] by simp

lemma observed_alternating:
  assumes "0 < a" "a < 10" "0 < b" "b < 10" "10 \<le> n" "n \<le> 20"
  shows "estimatedRate (sampleRateEstimator (observeAll (alternating a b (Suc n) t) (init_graph w)))
           = 1 / median (gaps a b n)"
    and "recommendedWindow (sampleRateEstimator (observeAll (alternating a b (Suc n) t) (init_graph w)))
           = nearestHalf (clamp (1 / 2) 60 (300 / (1 / median (gaps a b n))))"
proof -
  define e where "e = sampleRateEstimator (observeAll (alternating a b (Suc n) t) (init_graph w))"
  have len: "length (gaps c d k) = k" for c d k
    by (induction k arbitrary: c d) simp_all
  have "sampleTimes e = mostRecent 20 (acceptedIntervals None (alternating a b (Suc n) t))"
    unfolding e_def using observeAll_times[of "init_graph w" "alternating a b (Suc n) t"]
    by (simp add: init_graph_def init_estimator_def del: alternating.simps)
  then have t: "sampleTimes e = gaps a b n"
    using accepted_alternating[OF assms(1-4)] assms(6) by (simp add: mostRecent_def len)
  have "estInv e" unfolding e_def by (rule observeAll_inv[OF estInv_init])
  then have "estimateOk e" using t assms(5) by (simp add: estInv_def len)
  then have "estimatedRate e = 1 / median (gaps a b n)"
    and "recommendedWindow e = nearestHalf (clamp (1 / 2) 60 (300 / (1 / median (gaps a b n))))"
    by (simp_all add: estimateOk_def t)
  then show "estimatedRate (sampleRateEstimator (observeAll (alternating a b (Suc n) t) (init_graph w)))
           = 1 / median (gaps a b n)"
    and "recommendedWindow (sampleRateEstimator (observeAll (alternating a b (Suc n) t) (init_graph w)))
           = nearestHalf (clamp (1 / 2) 60 (300 / (1 / median (gaps a b n))))"
    unfolding e_def by blast+
qed

lemma median_gaps_11_low: "median (gaps (99 / 1000) (101 / 1000) 11) = 99 / 1000"
  by code_simp

lemma median_gaps_11_high: "median (gaps (101 / 1000) (99 / 1000) 11) = 101 / 1000"
  by code_simp

lemma median_gaps_12_low: "median (gaps (99 / 1000) (101 / 1000) 12) = 101 / 1000"
  by code_simp

lemma median_gaps_12_high: "median (gaps (101 / 1000) (99 / 1000) 12) = 101 / 1000"
  by code_simp

lemma nearestHalf_low: "nearestHalf (clamp (1 / 2) 60 (300 / (1 / (99 / 1000)))) = 59 / 2"
  by (simp add: nearestHalf_def clamp_def)

lemma nearestHalf_high: "nearestHalf (clamp (1 / 2) 60 (300 / (1 / (101 / 1000)))) = 61 / 2"
  by (simp add: nearestHalf_def clamp_def)

lemma nearestHalf_nearest:
  "\<bar>nearestHalf x - x\<bar> \<le> 1 / 4 \<and> (\<exists>k :: int. nearestHalf x = of_int k / 2)"
proof -
  define f :: real where "f = of_int \<lfloor>x * 2 + 1 / 2\<rfloor>"
  have "f \<le> x * 2 + 1 / 2" and "x * 2 + 1 / 2 < f + 1"
    unfolding f_def by linarith+
  then have "\<bar>f / 2 - x\<bar> \<le> 1 / 4" by linarith
  then have "\<bar>nearestHalf x - x\<bar> \<le> 1 / 4" by (simp add: nearestHalf_def f_def)
  then show ?thesis unfolding nearestHalf_def by blast
qed

lemma observed_alternating':
  assumes "0 < a" "a < 10" "0 < b" "b < 10" "10 \<le> n" "n \<le> 20"
  shows "estimatedRate (observed w (alternating a b (Suc n) t)) = 1 / median (gaps a b n)"
    and "recommendedWindow (observed w (alternating a b (Suc n) t))
           = nearestHalf (clamp (1 / 2) 60 (300 / (1 / median (gaps a b n))))"
  unfolding observed_def using observed_alternating[OF assms] by blast+

text \<open>
  Claim C3, as the specification words it: after 12 calls whose intervals alternate between
  0.099 and 0.101 seconds, the rate is within 2 percent of 10 and the recommended window is
  30 seconds. The median is one of the stored intervals, never their mean: it is 0.099 or
  0.101, so 300 times it is 29.7 or 30.3, and the nearest half is 29.5 or 30.5.
\<close>

theorem recommendedWindow_not_30_counterexample:
  "recommendedWindow (observed 5 (alternating (99 / 1000) (101 / 1000) 12 0)) \<noteq> 30 \<and>
   recommendedWindow (observed 5 (alternating (101 / 1000) (99 / 1000) 12 0)) \<noteq> 30"
proof -
  have s12: "(12 :: nat) = Suc 11" by simp
  have "recommendedWindow (observed 5 (alternating (99 / 1000) (101 / 1000) 12 0)) = 59 / 2"
    unfolding s12 using observed_alternating'(2)[of "99 / 1000" "101 / 1000" 11 5 0]
    by (simp only: median_gaps_11_low nearestHalf_low)
  moreover have "recommendedWindow (observed 5 (alternating (101 / 1000) (99 / 1000) 12 0)) = 61 / 2"
    unfolding s12 using observed_alternating'(2)[of "101 / 1000" "99 / 1000" 11 5 0]
    by (simp only: median_gaps_11_high nearestHalf_high)
  ultimately show ?thesis by simp
qed

text \<open>
  Claim C3, amended: in a fresh session, after 12 consecutive calls whose intervals alternate
  between 0.099 and 0.101 seconds (11 intervals), \<open>estimatedRate\<close> is within 2 percent of
  10 and \<open>recommendedWindow\<close> is 29.5 seconds when the first interval is 0.099 and 30.5
  seconds when it is 0.101; after 13 calls (12 intervals) it is 30.5 seconds either way.
  The start time \<open>t\<close> and the display window \<open>w\<close> are arbitrary.
\<close>

theorem estimate_for_alternating_intervals:
  "\<bar>estimatedRate (observed w (alternating (99 / 1000) (101 / 1000) 12 t)) - 10\<bar> \<le> 2 / 100 * 10 \<and>
   recommendedWindow (observed w (alternating (99 / 1000) (101 / 1000) 12 t)) = 59 / 2 \<and>
   \<bar>estimatedRate (observed w (alternating (101 / 1000) (99 / 1000) 12 t)) - 10\<bar> \<le> 2 / 100 * 10 \<and>
   recommendedWindow (observed w (alternating (101 / 1000) (99 / 1000) 12 t)) = 61 / 2 \<and>
   \<bar>estimatedRate (observed w (alternating (99 / 1000) (101 / 1000) 13 t)) - 10\<bar> \<le> 2 / 100 * 10 \<and>
   recommendedWindow (observed w (alternating (99 / 1000) (101 / 1000) 13 t)) = 61 / 2 \<and>
   \<bar>estimatedRate (observed w (alternating (101 / 1000) (99 / 1000) 13 t)) - 10\<bar> \<le> 2 / 100 * 10 \<and>
   recommendedWindow (observed w (alternating (101 / 1000) (99 / 1000) 13 t)) = 61 / 2"
proof -
  have s12: "(12 :: nat) = Suc 11" and s13: "(13 :: nat) = Suc 12" by simp_all
  have a: "estimatedRate (observed w (alternating (99 / 1000) (101 / 1000) 12 t)) = 1 / (99 / 1000)"
    "recommendedWindow (observed w (alternating (99 / 1000) (101 / 1000) 12 t)) = 59 / 2"
    unfolding s12 using observed_alternating'[of "99 / 1000" "101 / 1000" 11 w t]
    by (simp_all only: median_gaps_11_low nearestHalf_low)
  have b: "estimatedRate (observed w (alternating (101 / 1000) (99 / 1000) 12 t)) = 1 / (101 / 1000)"
    "recommendedWindow (observed w (alternating (101 / 1000) (99 / 1000) 12 t)) = 61 / 2"
    unfolding s12 using observed_alternating'[of "101 / 1000" "99 / 1000" 11 w t]
    by (simp_all only: median_gaps_11_high nearestHalf_high)
  have c: "estimatedRate (observed w (alternating (99 / 1000) (101 / 1000) 13 t)) = 1 / (101 / 1000)"
    "recommendedWindow (observed w (alternating (99 / 1000) (101 / 1000) 13 t)) = 61 / 2"
    unfolding s13 using observed_alternating'[of "99 / 1000" "101 / 1000" 12 w t]
    by (simp_all only: median_gaps_12_low nearestHalf_high)
  have d: "estimatedRate (observed w (alternating (101 / 1000) (99 / 1000) 13 t)) = 1 / (101 / 1000)"
    "recommendedWindow (observed w (alternating (101 / 1000) (99 / 1000) 13 t)) = 61 / 2"
    unfolding s13 using observed_alternating'[of "101 / 1000" "99 / 1000" 12 w t]
    by (simp_all only: median_gaps_12_high nearestHalf_high)
  show ?thesis unfolding a b c d by simp
qed

section \<open>The sample-rate estimator in double precision\<close>

text \<open>
  A stored interval is below 10, so the rate is at least \<open>1/16\<close> or infinite, and the
  quotient \<open>300 / rate\<close> is finite: the cases of \<open>recommend64\<close> for a zero rate and for a
  quotient that overflows do not arise in a session.
\<close>

lemma rate_of_interval:
  assumes "0 < m" and "m < 10"
  shows "finite64 (1 / m) = None \<or> (\<exists>r. finite64 (1 / m) = Some r \<and> 1 / 16 \<le> r)"
proof -
  have "1 / 16 < 1 / m" using assms by (simp add: field_simps)
  then have "2 powr of_int (- 4) \<le> 1 / m" by (simp add: powr_minus_divide)
  moreover have "0 < 1 / m" using assms by simp
  ultimately have "2 powr of_int (- 4) \<le> binaryRound 53 (- 1022) (1 / m)"
    by (intro binaryRound_ge_pow2) simp_all
  then have "1 / 16 \<le> double (1 / m)" by (simp add: double_def powr_minus_divide)
  then show ?thesis by (simp add: finite64_def)
qed

lemma quotient_of_rate:
  assumes "1 / 16 \<le> r"
  shows "finite64 (300 / r) = Some (double (300 / r))"
proof -
  have r: "0 < r" using assms by simp
  then have q: "0 < 300 / r" by simp
  have "300 / r \<le> 300 / (1 / 16)" using assms by (intro divide_left_mono) simp_all
  then have "300 / r \<le> 2 powr of_int 13" by simp
  with q have "binaryRound 53 (- 1022) (300 / r) \<le> 2 powr of_int 13"
    by (intro binaryRound_le_pow2) simp_all
  then have "double (300 / r) \<le> 2 ^ 13" by (simp add: double_def)
  also have "(2 :: real) ^ 13 < 2 ^ 1024" by (rule power_strict_increasing) simp_all
  finally have "double (300 / r) < 2 ^ 1024" .
  moreover have "0 \<le> double (300 / r)"
    unfolding double_def using q by (intro binaryRound_nonneg) simp
  ultimately show ?thesis by (simp add: finite64_def)
qed

lemma median_upper: "median xs = upperMedian xs"
  by (simp add: median_def upperMedian_def)

lemma recommend64_ok:
  assumes "0 < m" and "m < 10"
  shows "recommend64 300 (finite64 (1 / m)) = Some (windowFor (finite64 (1 / m)))"
proof -
  from rate_of_interval[OF assms] show ?thesis
  proof
    assume "finite64 (1 / m) = None"
    then show ?thesis
      by (simp add: recommend64_def windowFor_def nearestHalf_def clamp_def Math_round_def)
  next
    assume "\<exists>r. finite64 (1 / m) = Some r \<and> 1 / 16 \<le> r"
    then obtain r where r: "finite64 (1 / m) = Some r" "1 / 16 \<le> r" by blast
    then have "r \<noteq> 0" by auto
    with r quotient_of_rate[OF r(2)] show ?thesis
      by (simp add: recommend64_def windowFor_def nearestHalf_def clamp_def Math_round_def)
  qed
qed

lemma updateEstimate64_fields:
  "sampleTimes64 (sampleRateEstimator64 (updateEstimate64 s)) = sampleTimes64 (sampleRateEstimator64 s)"
  "lastTime64 (sampleRateEstimator64 (updateEstimate64 s)) = lastTime64 (sampleRateEstimator64 s)"
  "maxSamplesPerNode64 (sampleRateEstimator64 (updateEstimate64 s)) = maxSamplesPerNode64 (sampleRateEstimator64 s)"
  by (simp_all add: updateEstimate64_def Let_def split: option.splits)

lemma updateEstimate64_ok:
  assumes "length (sampleTimes64 (sampleRateEstimator64 s)) \<ge> 10"
    and "\<forall>x \<in> set (sampleTimes64 (sampleRateEstimator64 s)). 0 < x \<and> x < 10"
    and "maxSamplesPerNode64 (sampleRateEstimator64 s) = 300"
  shows "estimateOk64 (sampleRateEstimator64 (updateEstimate64 s))"
proof -
  define m where "m = median (sampleTimes64 (sampleRateEstimator64 s))"
  have "sampleTimes64 (sampleRateEstimator64 s) \<noteq> []" using assms(1) by auto
  then have "m \<in> set (sampleTimes64 (sampleRateEstimator64 s))"
    unfolding m_def by (rule median_in_set)
  with assms(2) have m: "0 < m" "m < 10" by auto
  have w: "recommend64 300 (finite64 (1 / m)) = Some (windowFor (finite64 (1 / m)))"
    by (rule recommend64_ok[OF m])
  have r: "estimatedRate64 (sampleRateEstimator64 (updateEstimate64 s)) = finite64 (1 / m)"
    and rw: "recommendedWindow64 (sampleRateEstimator64 (updateEstimate64 s)) =
               Some (windowFor (finite64 (1 / m)))"
    using assms(1,3) m(1) w by (simp_all add: updateEstimate64_def Let_def m_def[symmetric])
  show ?thesis
    unfolding estimateOk64_def r rw updateEstimate64_fields
    by (simp add: m_def median_upper)
qed


lemma sampleTimes64_step:
  assumes "length (sampleTimes64 (sampleRateEstimator64 s)) \<le> 20"
  shows "sampleTimes64 (sampleRateEstimator64 (estimateSampleRate64 x s)) =
         mostRecent 20 (sampleTimes64 (sampleRateEstimator64 s)
                          @ acceptedIntervals64 (lastTime64 (sampleRateEstimator64 s)) [x])"
proof -
  have id: "mostRecent 20 (sampleTimes64 (sampleRateEstimator64 s)) = sampleTimes64 (sampleRateEstimator64 s)"
    using assms by (simp add: mostRecent_def)
  show ?thesis
  proof (cases x)
    case None
    then show ?thesis by (simp add: estimateSampleRate64_def id)
  next
    case (Some now)
    show ?thesis
    proof (cases "lastTime64 (sampleRateEstimator64 s)")
      case None
      with Some show ?thesis by (simp add: estimateSampleRate64_def id)
    next
      case lt: (Some lt)
      show ?thesis
      proof (cases "finite64 (now - lt)")
        case None
        with Some lt show ?thesis by (simp add: estimateSampleRate64_def id)
      next
        case d: (Some d)
        with Some lt show ?thesis
          using mostRecent_push[OF assms, of d]
          by (simp add: estimateSampleRate64_def recordInterval64_def Let_def id
              updateEstimate64_fields)
      qed
    qed
  qed
qed

lemma lastTime64_step:
  "lastTime64 (sampleRateEstimator64 (estimateSampleRate64 x s)) =
     (case x of None \<Rightarrow> lastTime64 (sampleRateEstimator64 s) | Some now \<Rightarrow> Some now)"
  by (simp add: estimateSampleRate64_def Let_def split: option.splits)

lemma acceptedIntervals64_Cons:
  "acceptedIntervals64 lt (x # xs) =
     acceptedIntervals64 lt [x]
       @ acceptedIntervals64 (case x of None \<Rightarrow> lt | Some now \<Rightarrow> Some now) xs"
  by (cases x; cases lt) simp_all

lemma acceptedIntervals64_single:
  "acceptedIntervals64 lt [x] = [] \<or>
   (\<exists>d. acceptedIntervals64 lt [x] = [d] \<and> 0 < d \<and> d < 10)"
  by (cases x; cases lt) (simp_all split: option.splits)

lemma estimateSampleRate64_rest:
  "maxSamplesPerNode64 (sampleRateEstimator64 (estimateSampleRate64 x s))
     = maxSamplesPerNode64 (sampleRateEstimator64 s)"
  by (simp add: estimateSampleRate64_def recordInterval64_def Let_def updateEstimate64_fields
      split: option.splits)

lemma estimateSampleRate64_ok:
  assumes "acceptedIntervals64 (lastTime64 (sampleRateEstimator64 s)) [x] = [d]"
    and "length (sampleTimes64 (sampleRateEstimator64 s)) \<le> 20"
  shows "\<exists>s1. sampleTimes64 (sampleRateEstimator64 s1) =
                 mostRecent 20 (sampleTimes64 (sampleRateEstimator64 s) @ [d]) \<and>
              maxSamplesPerNode64 (sampleRateEstimator64 s1) = maxSamplesPerNode64 (sampleRateEstimator64 s) \<and>
              estimatedRate64 (sampleRateEstimator64 (estimateSampleRate64 x s))
                = estimatedRate64 (sampleRateEstimator64 (updateEstimate64 s1)) \<and>
              recommendedWindow64 (sampleRateEstimator64 (estimateSampleRate64 x s))
                = recommendedWindow64 (sampleRateEstimator64 (updateEstimate64 s1))"
proof -
  let ?e = "sampleRateEstimator64 s"
  from assms(1) obtain now lt where x: "x = Some now" and lt: "lastTime64 ?e = Some lt"
    and f: "finite64 (now - lt) = Some d" and acc: "0 < d" "d < 10"
    by (cases x; cases "lastTime64 ?e") (auto split: option.splits if_splits)
  define s1 where "s1 = s\<lparr>sampleRateEstimator64 :=
      ?e\<lparr>sampleTimes64 := mostRecent 20 (sampleTimes64 ?e @ [d])\<rparr>\<rparr>"
  have st: "estimateSampleRate64 x s =
      (updateEstimate64 s1)\<lparr>sampleRateEstimator64 :=
         (sampleRateEstimator64 (updateEstimate64 s1))\<lparr>lastTime64 := Some now\<rparr>\<rparr>"
    using x lt f acc mostRecent_push[OF assms(2), of d]
    by (simp add: estimateSampleRate64_def recordInterval64_def Let_def s1_def)
  have "sampleTimes64 (sampleRateEstimator64 s1) = mostRecent 20 (sampleTimes64 ?e @ [d])"
    and "maxSamplesPerNode64 (sampleRateEstimator64 s1) = maxSamplesPerNode64 ?e"
    by (simp_all add: s1_def)
  moreover have "estimatedRate64 (sampleRateEstimator64 (estimateSampleRate64 x s))
      = estimatedRate64 (sampleRateEstimator64 (updateEstimate64 s1))"
    and "recommendedWindow64 (sampleRateEstimator64 (estimateSampleRate64 x s))
      = recommendedWindow64 (sampleRateEstimator64 (updateEstimate64 s1))"
    unfolding st by simp_all
  ultimately show ?thesis by blast
qed

lemma estimateSampleRate64_skip:
  assumes "acceptedIntervals64 (lastTime64 (sampleRateEstimator64 s)) [x] = []"
  shows "estimatedRate64 (sampleRateEstimator64 (estimateSampleRate64 x s))
           = estimatedRate64 (sampleRateEstimator64 s) \<and>
         recommendedWindow64 (sampleRateEstimator64 (estimateSampleRate64 x s))
           = recommendedWindow64 (sampleRateEstimator64 s)"
  using assms
  by (cases x; cases "lastTime64 (sampleRateEstimator64 s)")
    (auto simp: estimateSampleRate64_def Let_def split: option.splits if_splits)

lemma estInv64_step:
  assumes "estInv64 (sampleRateEstimator64 s)"
  shows "estInv64 (sampleRateEstimator64 (estimateSampleRate64 x s))"
proof -
  let ?e = "sampleRateEstimator64 s"
  let ?e' = "sampleRateEstimator64 (estimateSampleRate64 x s)"
  from assms have len: "length (sampleTimes64 ?e) \<le> 20" by (simp add: estInv64_def)
  have t: "sampleTimes64 ?e' = mostRecent 20 (sampleTimes64 ?e @ acceptedIntervals64 (lastTime64 ?e) [x])"
    by (rule sampleTimes64_step[OF len])
  have ms: "maxSamplesPerNode64 ?e' = 300"
    using assms by (simp add: estimateSampleRate64_rest estInv64_def)
  from acceptedIntervals64_single[of "lastTime64 ?e" x] show ?thesis
  proof
    assume n: "acceptedIntervals64 (lastTime64 ?e) [x] = []"
    then have t': "sampleTimes64 ?e' = sampleTimes64 ?e"
      using t len by (simp add: mostRecent_def)
    with estimateSampleRate64_skip[OF n] assms ms show ?thesis
      by (simp add: estInv64_def estimateOk64_def)
  next
    assume "\<exists>d. acceptedIntervals64 (lastTime64 ?e) [x] = [d] \<and> 0 < d \<and> d < 10"
    then obtain d where d: "acceptedIntervals64 (lastTime64 ?e) [x] = [d]" and acc: "0 < d" "d < 10"
      by blast
    define times where "times = mostRecent 20 (sampleTimes64 ?e @ [d])"
    have t': "sampleTimes64 ?e' = times" using t d by (simp add: times_def)
    have tl: "length times \<le> 20" by (simp add: times_def mostRecent_def)
    have "set times \<subseteq> set (sampleTimes64 ?e @ [d])"
      unfolding times_def mostRecent_def by (rule set_drop_subset)
    then have tr: "\<forall>i \<in> set times. 0 < i \<and> i < 10"
      using assms acc by (auto simp: estInv64_def)
    from estimateSampleRate64_ok[OF d len] obtain s1 where
      s1: "sampleTimes64 (sampleRateEstimator64 s1) = times"
        "maxSamplesPerNode64 (sampleRateEstimator64 s1) = maxSamplesPerNode64 ?e"
        "estimatedRate64 ?e' = estimatedRate64 (sampleRateEstimator64 (updateEstimate64 s1))"
        "recommendedWindow64 ?e' = recommendedWindow64 (sampleRateEstimator64 (updateEstimate64 s1))"
      unfolding times_def by blast
    have m1: "maxSamplesPerNode64 (sampleRateEstimator64 s1) = 300"
      using s1(2) assms by (simp add: estInv64_def)
    have ok: "estimateOk64 ?e'" if "10 \<le> length times"
    proof -
      from updateEstimate64_ok[of s1] that tr m1 s1(1)
      have "estimateOk64 (sampleRateEstimator64 (updateEstimate64 s1))" by simp
      then show ?thesis
        unfolding estimateOk64_def s1(3,4) t' updateEstimate64_fields s1(1) .
    qed
    show ?thesis
      unfolding estInv64_def t' using tl tr ms ok by simp
  qed
qed

lemma observeAll64_inv:
  "estInv64 (sampleRateEstimator64 s) \<Longrightarrow> estInv64 (sampleRateEstimator64 (observeAll64 xs s))"
  by (induction xs arbitrary: s) (simp_all add: estInv64_step)

lemma observeAll64_times:
  "length (sampleTimes64 (sampleRateEstimator64 s)) \<le> 20 \<Longrightarrow>
   sampleTimes64 (sampleRateEstimator64 (observeAll64 xs s)) =
     mostRecent 20 (sampleTimes64 (sampleRateEstimator64 s)
                      @ acceptedIntervals64 (lastTime64 (sampleRateEstimator64 s)) xs)"
proof (induction xs arbitrary: s)
  case Nil
  then show ?case by (simp add: mostRecent_def)
next
  case (Cons x xs)
  let ?s1 = "estimateSampleRate64 x s"
  have t1: "sampleTimes64 (sampleRateEstimator64 ?s1) =
      mostRecent 20 (sampleTimes64 (sampleRateEstimator64 s)
                       @ acceptedIntervals64 (lastTime64 (sampleRateEstimator64 s)) [x])"
    by (rule sampleTimes64_step[OF Cons.prems])
  then have "length (sampleTimes64 (sampleRateEstimator64 ?s1)) \<le> 20"
    by (simp add: mostRecent_def)
  from Cons.IH[OF this] show ?case
    unfolding t1 lastTime64_step mostRecent_append
    by (simp add: acceptedIntervals64_Cons[of _ x xs])
qed

lemma observed64_inv: "estInv64 (observed64 w xs)"
  unfolding observed64_def
  by (rule observeAll64_inv) (simp add: estInv64_def init_page64_def init_estimator64_def)

lemma observed64_times: "sampleTimes64 (observed64 w xs) = mostRecent 20 (acceptedIntervals64 None xs)"
  unfolding observed64_def using observeAll64_times[of "init_page64 w" xs]
  by (simp add: init_page64_def init_estimator64_def)

lemma upperMedian_middle:
  assumes "xs \<noteq> []"
  shows "upperMedian xs \<in> set xs \<and>
         length xs < 2 * length (filter (\<lambda>x. x \<le> upperMedian xs) xs) \<and>
         length xs \<le> 2 * length (filter (\<lambda>x. upperMedian xs \<le> x) xs)"
proof -
  define ys where "ys = sort xs"
  define k where "k = length xs div 2"
  define m where "m = ys ! k"
  have n: "length ys = length xs" by (simp add: ys_def)
  have k: "k < length ys" using assms by (cases xs) (simp_all add: n k_def)
  have srt: "sorted ys" by (simp add: ys_def)
  have um: "upperMedian xs = m" by (simp add: upperMedian_def m_def ys_def k_def)
  have "m \<in> set ys" unfolding m_def using k by (rule nth_mem)
  then have mem: "m \<in> set xs" by (simp add: ys_def)
  have cnt: "length (filter P ys) = length (filter P xs)" for P :: "real \<Rightarrow> bool"
    unfolding ys_def by (simp add: filter_sort)
  have lo: "\<forall>x \<in> set (take (Suc k) ys). x \<le> m"
  proof
    fix x
    assume "x \<in> set (take (Suc k) ys)"
    then obtain i where i: "i < length (take (Suc k) ys)" "take (Suc k) ys ! i = x"
      by (auto simp: in_set_conv_nth)
    then have "i \<le> k" and "x = ys ! i" by simp_all
    with srt k show "x \<le> m" unfolding m_def by (simp add: sorted_nth_mono)
  qed
  have hi: "\<forall>x \<in> set (drop k ys). m \<le> x"
  proof
    fix x
    assume "x \<in> set (drop k ys)"
    then obtain i where i: "i < length (drop k ys)" "drop k ys ! i = x"
      by (auto simp: in_set_conv_nth)
    then have "k + i < length ys" and "x = ys ! (k + i)" by simp_all
    with srt show "m \<le> x" unfolding m_def by (simp add: sorted_nth_mono)
  qed
  have "length (filter (\<lambda>x. x \<le> m) ys)
      = length (filter (\<lambda>x. x \<le> m) (take (Suc k) ys)) + length (filter (\<lambda>x. x \<le> m) (drop (Suc k) ys))"
    by (metis append_take_drop_id filter_append length_append)
  moreover have "filter (\<lambda>x. x \<le> m) (take (Suc k) ys) = take (Suc k) ys"
    using lo by simp
  moreover have "length (take (Suc k) ys) = Suc k" using k by simp
  ultimately have a: "Suc k \<le> length (filter (\<lambda>x. x \<le> m) ys)" by simp
  have "length (filter (\<lambda>x. m \<le> x) ys)
      = length (filter (\<lambda>x. m \<le> x) (take k ys)) + length (filter (\<lambda>x. m \<le> x) (drop k ys))"
    by (metis append_take_drop_id filter_append length_append)
  moreover have "filter (\<lambda>x. m \<le> x) (drop k ys) = drop k ys"
    using hi by simp
  ultimately have b: "length ys - k \<le> length (filter (\<lambda>x. m \<le> x) ys)" by simp
  have "length xs < 2 * Suc k" by (simp add: k_def)
  with a have "length xs < 2 * length (filter (\<lambda>x. x \<le> m) xs)" by (simp add: cnt)
  moreover have "length xs \<le> 2 * (length ys - k)" unfolding k_def n by linarith
  with b have "length xs \<le> 2 * length (filter (\<lambda>x. m \<le> x) xs)" by (simp add: cnt)
  ultimately show ?thesis using mem by (simp add: um)
qed

lemma upperMedian_odd: "odd (length xs) \<Longrightarrow> upperMedian xs = conventionalMedian xs"
  by (simp add: upperMedian_def conventionalMedian_def)

lemma double_sixteenth: "double (1 / 16) = 1 / 16"
  by (rule double_exact[where e = "- 4" and k = "2 ^ 52"]) (simp_all add: powr_minus_divide)

lemma double_eighth: "double (1 / 8) = 1 / 8"
  by (rule double_exact[where e = "- 3" and k = "2 ^ 52"]) (simp_all add: powr_minus_divide)

lemma double_8: "double 8 = 8"
  by (rule double_exact[where e = 3 and k = "2 ^ 52"]) (simp_all add: powr_minus_divide)

lemma double_16: "double 16 = 16"
  by (rule double_exact[where e = 4 and k = "2 ^ 52"]) (simp_all add: powr_minus_divide)

lemma double_75_2: "double (75 / 2) = 75 / 2"
  by (rule double_exact[where e = 5 and k = "75 * 2 ^ 46"]) (simp_all add: powr_minus_divide)

lemma double_m:
  "double (8646911284551351 / 1152921504606846976) = 8646911284551351 / 1152921504606846976"
  by (rule double_exact[where e = "- 8" and k = 8646911284551351]) (simp_all add: powr_minus_divide)

lemma double_rate:
  "double (1 / (8646911284551351 / 1152921504606846976)) = 4691249611844267 / 35184372088832"
proof -
  have "double (1 / (8646911284551351 / 1152921504606846976)) =
      of_int (rne (1 / (8646911284551351 / 1152921504606846976) / 2 powr (of_int 7 - 52))) * 2 powr (of_int 7 - 52)"
    by (rule double_at) simp_all
  also have "\<dots> = 4691249611844267 / 35184372088832"
    by (simp add: powr_minus_divide rne_def Let_def)
  finally show ?thesis .
qed

lemma finite64_rate:
  "finite64 (1 / (8646911284551351 / 1152921504606846976)) = Some (4691249611844267 / 35184372088832)"
proof -
  have "\<bar>double (1 / (8646911284551351 / 1152921504606846976))\<bar> \<le> 2 ^ 13" unfolding double_rate by simp
  from finite64_small[OF this] show ?thesis unfolding double_rate .
qed

lemma double_quotient: "double (300 / (4691249611844267 / 35184372088832)) = 9 / 4"
proof -
  have "double (300 / (4691249611844267 / 35184372088832)) =
      of_int (rne (300 / (4691249611844267 / 35184372088832) / 2 powr (of_int 1 - 52))) * 2 powr (of_int 1 - 52)"
    by (rule double_at) simp_all
  also have "\<dots> = 9 / 4"
    by (simp add: powr_minus_divide rne_def Let_def)
  finally show ?thesis .
qed

lemma double_32_3: "double (32 / 3) = 6004799503160661 / 562949953421312"
proof -
  have "double (32 / 3) =
      of_int (rne (32 / 3 / 2 powr (of_int 3 - 52))) * 2 powr (of_int 3 - 52)"
    by (rule double_at) simp_all
  also have "\<dots> = 6004799503160661 / 562949953421312"
    by (simp add: powr_minus_divide rne_def Let_def)
  finally show ?thesis .
qed

lemma accepted64_alternating_from:
  "finite64 a = Some a \<Longrightarrow> finite64 b = Some b \<Longrightarrow> 0 < a \<Longrightarrow> a < 10 \<Longrightarrow> 0 < b \<Longrightarrow> b < 10 \<Longrightarrow>
   acceptedIntervals64 (Some t) (alternating b a n (t + a)) = gaps a b n"
proof (induction n arbitrary: a b t)
  case 0
  then show ?case by simp
next
  case (Suc n)
  from Suc.IH[of b a "t + a"] Suc.prems show ?case by simp
qed

lemma accepted64_alternating:
  "finite64 a = Some a \<Longrightarrow> finite64 b = Some b \<Longrightarrow> 0 < a \<Longrightarrow> a < 10 \<Longrightarrow> 0 < b \<Longrightarrow> b < 10 \<Longrightarrow>
   acceptedIntervals64 None (alternating a b (Suc n) t) = gaps a b n"
  using accepted64_alternating_from[of a b t n] by simp

lemma accepted64_back:
  assumes "x \<le> l"
  shows "acceptedIntervals64 (Some l) (Some x # xs) = acceptedIntervals64 (Some x) xs"
proof (cases "finite64 (x - l)")
  case None
  then show ?thesis by simp
next
  case (Some d)
  with finite64_nonpos[of "x - l" d] assms have "d \<le> 0" by simp
  with Some show ?thesis by simp
qed

lemma accepted64_toggling:
  assumes "finite64 m = Some m" and "0 < m" and "m < 10"
  shows "lt = None \<or> lt = Some m \<Longrightarrow> acceptedIntervals64 lt (toggling m n) = replicate n m"
proof (induction n arbitrary: lt)
  case 0
  show ?case by simp
next
  case (Suc n)
  have step: "acceptedIntervals64 (Some 0) (Some m # toggling m n) = m # replicate n m"
    using assms Suc.IH[of "Some m"] by simp
  from Suc.prems show ?case
  proof
    assume "lt = None"
    with step show ?thesis by simp
  next
    assume "lt = Some m"
    with step accepted64_back[of 0 m "Some m # toggling m n"] assms(2) show ?thesis by simp
  qed
qed

lemma upperMedian_replicate: "0 < n \<Longrightarrow> upperMedian (replicate n x) = x"
  by (simp add: upperMedian_def sorted_replicate sort_key_id_if_sorted)

lemma upperMedian_gaps_10: "upperMedian (gaps (1 / 16) (1 / 8) 10) = 1 / 8"
  by code_simp

lemma conventionalMedian_gaps_10: "conventionalMedian (gaps (1 / 16) (1 / 8) 10) = 3 / 32"
  by code_simp

lemma upperMedian_gaps_11: "upperMedian (gaps (1 / 16) (1 / 8) 11) = 1 / 16"
  by code_simp

lemma length_gaps: "length (gaps a b n) = n"
  by (induction n arbitrary: a b) simp_all

lemma observed64_alternating:
  assumes "n \<le> 20"
  shows "sampleTimes64 (observed64 w (alternating (1 / 16) (1 / 8) (Suc n) 0)) = gaps (1 / 16) (1 / 8) n"
proof -
  have a: "finite64 (1 / 16) = Some (1 / 16)" and b: "finite64 (1 / 8) = Some (1 / 8)"
    by (simp_all add: finite64_small double_sixteenth double_eighth)
  have "acceptedIntervals64 None (alternating (1 / 16) (1 / 8) (Suc n) 0) = gaps (1 / 16) (1 / 8) n"
    by (rule accepted64_alternating[OF a b]) simp_all
  then show ?thesis
    unfolding observed64_times using assms by (simp add: mostRecent_def length_gaps)
qed

lemma observed64_toggling:
  "sampleTimes64 (observed64 w (toggling (8646911284551351 / 1152921504606846976) 10)) = replicate 10 (8646911284551351 / 1152921504606846976)"
proof -
  have m: "finite64 (8646911284551351 / 1152921504606846976) = Some (8646911284551351 / 1152921504606846976)"
    by (simp add: finite64_small double_m)
  have "acceptedIntervals64 None (toggling (8646911284551351 / 1152921504606846976) 10) = replicate 10 (8646911284551351 / 1152921504606846976)"
    by (rule accepted64_toggling[OF m]) simp_all
  then show ?thesis
    unfolding observed64_times by (simp add: mostRecent_def)
qed

lemma observed64_ok:
  assumes "10 \<le> length (sampleTimes64 (observed64 w xs))"
  shows "estimatedRate64 (observed64 w xs) = finite64 (1 / upperMedian (sampleTimes64 (observed64 w xs)))"
    and "recommendedWindow64 (observed64 w xs) = Some (windowFor (estimatedRate64 (observed64 w xs)))"
  using observed64_inv[of w xs] assms by (simp_all add: estInv64_def estimateOk64_def)

lemma windowFor_8: "windowFor (Some 8) = 75 / 2"
  by (simp add: windowFor_def double_75_2 nearestHalf_def clamp_def)

lemma windowFor_rate: "windowFor (Some (4691249611844267 / 35184372088832)) = 5 / 2"
  unfolding windowFor_def option.case double_quotient by (simp add: nearestHalf_def clamp_def)

text \<open>
  Claim C4, as stated: once ten intervals are stored, the rate is 1 over the median of the
  stored intervals, and the recommended window is 300 divided by that rate, clamped and
  rounded to the nearest half. For an even count the source takes the upper of the two
  middle intervals, not their mean: with the timestamps \<open>0, 1/16, 3/16, 4/16, \<dots>\<close> (all
  doubles, the intervals alternately \<open>1/16\<close> and \<open>1/8\<close>), ten intervals are stored, their
  median is \<open>3/32\<close>, and the rate is 8, not \<open>32/3\<close>. And the quotients are rounded: with
  ten intervals of 0.007499999999999999 seconds (timestamps going back and forth between 0
  and that value) the rate is 133.33333333333334, the quotient \<open>300 / rate\<close> rounds up to
  2.25 and the recommended window is 2.5, while the exact quotient lies below 2.25 and its
  nearest half is 2.
\<close>

theorem upper_median_counterexample:
  "length (sampleTimes64 (observed64 5 (alternating (1 / 16) (1 / 8) 11 0))) = 10 \<and>
   estimatedRate64 (observed64 5 (alternating (1 / 16) (1 / 8) 11 0)) = Some 8 \<and>
   conventionalMedian (sampleTimes64 (observed64 5 (alternating (1 / 16) (1 / 8) 11 0))) = 3 / 32 \<and>
   finite64 (1 / (3 / 32)) = Some (6004799503160661 / 562949953421312) \<and>
   (6004799503160661 / 562949953421312 :: real) \<noteq> 8 \<and>
   sampleTimes64 (observed64 5 (toggling (8646911284551351 / 1152921504606846976) 10))
     = replicate 10 (8646911284551351 / 1152921504606846976) \<and>
   estimatedRate64 (observed64 5 (toggling (8646911284551351 / 1152921504606846976) 10))
     = Some (4691249611844267 / 35184372088832) \<and>
   recommendedWindow64 (observed64 5 (toggling (8646911284551351 / 1152921504606846976) 10))
     = Some (5 / 2) \<and>
   nearestHalf (clamp (1 / 2) 60 (300 / (4691249611844267 / 35184372088832))) = 2"
proof -
  let ?a = "observed64 5 (alternating (1 / 16) (1 / 8) 11 0)"
  let ?b = "observed64 5 (toggling (8646911284551351 / 1152921504606846976) 10)"
  have s11: "(11 :: nat) = Suc 10" by simp
  have ta: "sampleTimes64 ?a = gaps (1 / 16) (1 / 8) 10"
    unfolding s11 by (rule observed64_alternating) simp
  then have la: "length (sampleTimes64 ?a) = 10" by (simp add: length_gaps)
  have ra: "estimatedRate64 ?a = Some 8"
    using observed64_ok(1)[of 5 "alternating (1 / 16) (1 / 8) 11 0"] la
    by (simp add: ta upperMedian_gaps_10 finite64_small double_8)
  have ca: "conventionalMedian (sampleTimes64 ?a) = 3 / 32"
    unfolding ta by (rule conventionalMedian_gaps_10)
  have q: "finite64 (1 / (3 / 32)) = Some (6004799503160661 / 562949953421312)"
    using finite64_small[of "32 / 3"] by (simp add: double_32_3)
  have tb: "sampleTimes64 ?b = replicate 10 (8646911284551351 / 1152921504606846976)"
    by (rule observed64_toggling)
  have ub: "upperMedian (sampleTimes64 ?b) = 8646911284551351 / 1152921504606846976"
    unfolding tb by (rule upperMedian_replicate) simp
  have "estimatedRate64 ?b = finite64 (1 / upperMedian (sampleTimes64 ?b))"
    by (rule observed64_ok(1)) (simp add: tb)
  then have rb: "estimatedRate64 ?b = Some (4691249611844267 / 35184372088832)"
    unfolding ub finite64_rate .
  have wb: "recommendedWindow64 ?b = Some (5 / 2)"
    using observed64_ok(2)[of 5 "toggling (8646911284551351 / 1152921504606846976) 10"]
    unfolding rb windowFor_rate by (simp add: tb)
  have e: "nearestHalf (clamp (1 / 2) 60 (300 / (4691249611844267 / 35184372088832))) = 2"
    by (simp add: nearestHalf_def clamp_def)
  from la ra ca q tb rb wb e show ?thesis by simp
qed

text \<open>
  Claim C4, amended. Over every sequence of \<^verbatim>\<open>estimateSampleRate\<close> calls of a session, in
  the arithmetic of doubles: the history is the 20 most recent accepted intervals (fewer
  while fewer were accepted), an interval being the difference of two consecutive finite
  timestamps, rounded to a double, and accepted when it lies strictly between 0 and 10; and
  once the history holds at least 10 intervals, \<open>estimatedRate\<close> is 1 divided by their
  upper median, rounded to a double (\<^verbatim>\<open>Infinity\<close> when the quotient overflows), and
  \<open>recommendedWindow\<close> is 300 divided by that rate (0 for an infinite rate), rounded to a
  double, then clamped to \<open>[0.5, 60]\<close> and rounded to the nearest half, a tie going up. The
  upper median is the element at index \<open>length div 2\<close> of the sorted intervals: one of the
  stored intervals, with more than half of them at most it and at least half of them at
  least it; for an odd count it is the median.
\<close>

theorem estimateSampleRate64_history:
  "sampleTimes64 (observed64 w xs) = mostRecent 20 (acceptedIntervals64 None xs) \<and>
   (\<forall>i \<in> set (sampleTimes64 (observed64 w xs)). 0 < i \<and> i < 10) \<and>
   length (sampleTimes64 (observed64 w xs)) \<le> 20 \<and>
   (length (sampleTimes64 (observed64 w xs)) \<ge> 10 \<longrightarrow>
      estimatedRate64 (observed64 w xs) = finite64 (1 / upperMedian (sampleTimes64 (observed64 w xs))) \<and>
      recommendedWindow64 (observed64 w xs) = Some (windowFor (estimatedRate64 (observed64 w xs))) \<and>
      upperMedian (sampleTimes64 (observed64 w xs)) \<in> set (sampleTimes64 (observed64 w xs)) \<and>
      length (sampleTimes64 (observed64 w xs))
        < 2 * length (filter (\<lambda>i. i \<le> upperMedian (sampleTimes64 (observed64 w xs)))
                        (sampleTimes64 (observed64 w xs))) \<and>
      length (sampleTimes64 (observed64 w xs))
        \<le> 2 * length (filter (\<lambda>i. upperMedian (sampleTimes64 (observed64 w xs)) \<le> i)
                          (sampleTimes64 (observed64 w xs))) \<and>
      (odd (length (sampleTimes64 (observed64 w xs))) \<longrightarrow>
         upperMedian (sampleTimes64 (observed64 w xs))
           = conventionalMedian (sampleTimes64 (observed64 w xs))))"
proof -
  define st where "st = sampleTimes64 (observed64 w xs)"
  have inv: "estInv64 (observed64 w xs)" by (rule observed64_inv)
  have mid: "upperMedian st \<in> set st \<and>
      length st < 2 * length (filter (\<lambda>i. i \<le> upperMedian st) st) \<and>
      length st \<le> 2 * length (filter (\<lambda>i. upperMedian st \<le> i) st)" if "10 \<le> length st"
  proof -
    from that have "st \<noteq> []" by auto
    then show ?thesis by (rule upperMedian_middle)
  qed
  show ?thesis
    unfolding st_def[symmetric]
    using inv observed64_times[of w xs] mid upperMedian_odd[of st]
    by (simp add: estInv64_def estimateOk64_def st_def[symmetric])
qed

theorem estimateSampleRate64_history_witness:
  "sampleTimes64 (observed64 5 (alternating (1 / 16) (1 / 8) 11 0)) = gaps (1 / 16) (1 / 8) 10 \<and>
   length (sampleTimes64 (observed64 5 (alternating (1 / 16) (1 / 8) 11 0))) \<ge> 10 \<and>
   upperMedian (sampleTimes64 (observed64 5 (alternating (1 / 16) (1 / 8) 11 0))) = 1 / 8 \<and>
   estimatedRate64 (observed64 5 (alternating (1 / 16) (1 / 8) 11 0)) = Some 8 \<and>
   recommendedWindow64 (observed64 5 (alternating (1 / 16) (1 / 8) 11 0)) = Some (75 / 2) \<and>
   odd (length (sampleTimes64 (observed64 5 (alternating (1 / 16) (1 / 8) 12 0)))) \<and>
   conventionalMedian (sampleTimes64 (observed64 5 (alternating (1 / 16) (1 / 8) 12 0))) = 1 / 16 \<and>
   estimatedRate64 (observed64 5 (alternating (1 / 16) (1 / 8) 12 0)) = Some 16"
proof -
  let ?a = "observed64 5 (alternating (1 / 16) (1 / 8) 11 0)"
  let ?b = "observed64 5 (alternating (1 / 16) (1 / 8) 12 0)"
  have s11: "(11 :: nat) = Suc 10" and s12: "(12 :: nat) = Suc 11" by simp_all
  have a: "finite64 (1 / 16) = Some (1 / 16)" and b: "finite64 (1 / 8) = Some (1 / 8)"
    by (simp_all add: finite64_small double_sixteenth double_eighth)
  have acca: "acceptedIntervals64 None (alternating (1 / 16) (1 / 8) 11 0) = gaps (1 / 16) (1 / 8) 10"
    unfolding s11 by (rule accepted64_alternating[OF a b]) simp_all
  have accb: "acceptedIntervals64 None (alternating (1 / 16) (1 / 8) 12 0) = gaps (1 / 16) (1 / 8) 11"
    unfolding s12 by (rule accepted64_alternating[OF a b]) simp_all
  note ha = estimateSampleRate64_history[of 5 "alternating (1 / 16) (1 / 8) 11 0"]
  note hb = estimateSampleRate64_history[of 5 "alternating (1 / 16) (1 / 8) 12 0"]
  from ha have ta: "sampleTimes64 ?a = gaps (1 / 16) (1 / 8) 10"
    unfolding acca by (simp add: mostRecent_def length_gaps)
  from hb have tb: "sampleTimes64 ?b = gaps (1 / 16) (1 / 8) 11"
    unfolding accb by (simp add: mostRecent_def length_gaps)
  have la: "length (sampleTimes64 ?a) \<ge> 10" and lb: "length (sampleTimes64 ?b) \<ge> 10"
    and ob: "odd (length (sampleTimes64 ?b))"
    by (simp_all add: ta tb length_gaps)
  from ha la have ra: "estimatedRate64 ?a = finite64 (1 / upperMedian (sampleTimes64 ?a))"
    and wa: "recommendedWindow64 ?a = Some (windowFor (estimatedRate64 ?a))"
    by blast+
  from hb lb ob have rb: "estimatedRate64 ?b = finite64 (1 / upperMedian (sampleTimes64 ?b))"
    and cb: "upperMedian (sampleTimes64 ?b) = conventionalMedian (sampleTimes64 ?b)"
    by blast+
  have ua: "upperMedian (sampleTimes64 ?a) = 1 / 8" unfolding ta by (rule upperMedian_gaps_10)
  have ub: "upperMedian (sampleTimes64 ?b) = 1 / 16" unfolding tb by (rule upperMedian_gaps_11)
  have ra': "estimatedRate64 ?a = Some 8"
    unfolding ra ua by (simp add: finite64_small double_8)
  have wa': "recommendedWindow64 ?a = Some (75 / 2)"
    unfolding wa ra' windowFor_8 ..
  have rb': "estimatedRate64 ?b = Some 16"
    unfolding rb ub by (simp add: finite64_small double_16)
  from ta la ua ra' wa' ob cb ub rb' show ?thesis by simp
qed

section \<open>The one-shot adjustment of the display window\<close>

lemma sameWindow_refl: "sameWindow s s"
  by (simp add: sameWindow_def)

lemma sameWindow_trans: "sameWindow s s1 \<Longrightarrow> sameWindow s1 s2 \<Longrightarrow> sameWindow s s2"
  by (simp add: sameWindow_def)

lemma fold_growNode_window: "sameWindow s (fold growNode is s)"
proof (induction "is" arbitrary: s)
  case Nil
  show ?case by (simp add: sameWindow_def)
next
  case (Cons i "is")
  have "sameWindow s (growNode i s)"
    by (simp add: sameWindow_def growNode_def addRow_def Let_def)
  with Cons[of "growNode i s"] show ?case
    by (simp add: sameWindow_def)
qed

lemma ensureNodeCapacity_window: "sameWindow s (ensureNodeCapacity n s)"
  using fold_growNode_window[of s "[nodeCount s..<n]"]
  by (simp add: ensureNodeCapacity_def sameWindow_def resize_def applyVisibility_def)

lemma pushSample_window: "sameWindow s (state_of (pushSample i t y s))"
  by (simp add: pushSample_def sameWindow_def split: option.splits)

lemma pushAmps_window: "sameWindow s (state_of (pushAmps is t vs s))"
proof (induction "is" arbitrary: s)
  case Nil
  show ?case by (simp add: sameWindow_def)
next
  case (Cons i "is")
  show ?case
  proof (cases "numAt vs i")
    case None
    with Cons show ?thesis by simp
  next
    case (Some y)
    show ?thesis
    proof (cases "pushSample i t y s")
      case (Done s1)
      with pushSample_window[of s i t y] have "sameWindow s s1" by simp
      with Cons[of s1] Some Done show ?thesis by (simp add: sameWindow_def)
    next
      case (Thrown s1)
      with pushSample_window[of s i t y] Some show ?thesis by simp
    qed
  qed
qed

lemma pushVector_window: "sameWindow s (state_of (pushVector t vs s))"
  unfolding pushVector_def Let_def
  using ensureNodeCapacity_window pushAmps_window sameWindow_trans by blast

lemma pushFrames_window: "sameWindow s (state_of (pushFrames fs clock s))"
proof (induction fs arbitrary: s)
  case Nil
  show ?case by (simp add: sameWindow_def)
next
  case (Cons f fs)
  obtain tk vs where f: "f = (tk, vs)" by (cases f)
  show ?case
  proof (cases tk)
    case None
    with Cons f show ?thesis by simp
  next
    case (Some tAbs)
    define tRel where "tRel = (case t0Payload s of Some t0 \<Rightarrow> double (tAbs - t0) | None \<Rightarrow> clock)"
    show ?thesis
    proof (cases "pushVector tRel vs s")
      case (Done s1)
      with pushVector_window[of s tRel vs] have "sameWindow s s1" by simp
      with Cons[of s1] Some Done f show ?thesis
        by (simp add: sameWindow_def tRel_def)
    next
      case (Thrown s1)
      with pushVector_window[of s tRel vs] Some f show ?thesis
        by (simp add: tRel_def)
    qed
  qed
qed

lemma relativeTime_window: "sameWindow s (fst (relativeTime payload clock s))"
  by (simp add: relativeTime_def sameWindow_def Let_def split: option.splits)

lemma singleFinish_window: "sameWindow (state_of r) (singleFinish t r)"
  by (cases r) (simp_all add: singleFinish_def sameWindow_def)

lemma batchFinish_window: "sameWindow (state_of r) (batchFinish r)"
  by (cases r) (simp_all add: batchFinish_def sameWindow_def)

lemma pushGraphSamples_window: "sameWindow s (pushGraphSamples p clock s)"
proof (cases p)
  case None
  then show ?thesis by (simp add: pushGraphSamples_def sameWindow_def)
next
  case (Some payload)
  obtain s0 t where st: "relativeTime payload clock s = (s0, t)" by fastforce
  then have w0: "sameWindow s s0" using relativeTime_window[of s payload clock] by simp
  define r where "r = (case nodes payload of
                      Some vs \<Rightarrow> pushVector t vs s0
                    | None \<Rightarrow>
                        (case amps payload of
                           Some vs \<Rightarrow> pushVector t vs s0
                         | None \<Rightarrow> Done s0))"
  have "sameWindow s0 (state_of r)"
    unfolding r_def using pushVector_window[of s0 t]
    by (auto simp: sameWindow_def split: option.splits)
  with w0 have "sameWindow s (state_of r)" by (rule sameWindow_trans)
  then have "sameWindow s (singleFinish t r)"
    using singleFinish_window sameWindow_trans by blast
  moreover have "pushGraphSamples p clock s = singleFinish t r"
    using Some st by (simp add: pushGraphSamples_def r_def)
  ultimately show ?thesis by simp
qed

lemma batchStart_window: "\<exists>x. sameWindow (estimateSampleRate x s) (batchStart tsl fl s)"
proof (cases "min (length tsl) (length fl) > 0")
  case True
  then have "sameWindow (estimateSampleRate (tsl ! 0) s) (batchStart tsl fl s)"
    by (simp add: batchStart_def Let_def sameWindow_def)
  then show ?thesis by blast
next
  case False
  then have "batchStart tsl fl s = s"
    by (auto simp: batchStart_def Let_def)
  moreover have "estimateSampleRate None s = s"
    by (simp add: estimateSampleRate_def)
  ultimately have "sameWindow (estimateSampleRate None s) (batchStart tsl fl s)"
    by (simp add: sameWindow_def)
  then show ?thesis by blast
qed

lemma pushGraphBatch_window:
  "\<exists>x. sameWindow (estimateSampleRate x s) (pushGraphBatch p clock s)"
proof -
  have none: "sameWindow (estimateSampleRate None s) s"
    by (simp add: estimateSampleRate_def sameWindow_def)
  show ?thesis
  proof (cases "\<exists>b tsl fl. p = Some b \<and> ts b = Some tsl \<and> frames b = Some fl")
    case True
    then obtain b tsl fl where p: "p = Some b" "ts b = Some tsl" "frames b = Some fl" by blast
    obtain x where "sameWindow (estimateSampleRate x s) (batchStart tsl fl s)"
      using batchStart_window by blast
    then have "sameWindow (estimateSampleRate x s)
        (batchFinish (pushFrames (zip tsl fl) clock (batchStart tsl fl s)))"
      using pushFrames_window batchFinish_window sameWindow_trans by blast
    with p show ?thesis by (auto simp: pushGraphBatch_def)
  next
    case False
    then have "pushGraphBatch p clock s = s"
      by (auto simp: pushGraphBatch_def split: option.splits)
    with none show ?thesis by metis
  qed
qed

lemma clearFrom_window: "sameWindow s (state_of (clearFrom i s))"
proof (induction i s rule: clearFrom.induct)
  case (1 i s)
  show ?case
  proof (cases "i < nodeCount s")
    case False
    then show ?thesis by (simp add: clearFrom.simps[of i s] sameWindow_def)
  next
    case True
    show ?thesis
    proof (cases "dataByNode s i")
      case None
      with True show ?thesis by (simp add: clearFrom.simps[of i s] sameWindow_def)
    next
      case (Some arr)
      define s1 where "s1 = s\<lparr>dataByNode := (dataByNode s)(i \<mapsto> [])\<rparr>"
      show ?thesis
      proof (cases "i < length (rowsEls s1)")
        case False
        with True Some show ?thesis
          by (simp add: clearFrom.simps[of i s] sameWindow_def s1_def)
      next
        case r: True
        define s2 where "s2 = s1\<lparr>rowsEls := (rowsEls s1)[i := (rowsEls s1 ! i)\<lparr>painted := False\<rparr>]\<rparr>"
        have "sameWindow s2 (state_of (clearFrom (Suc i) s2))"
          using "1.IH"[OF True Some s1_def r] by (simp add: s2_def)
        moreover have "sameWindow s s2" by (simp add: s2_def s1_def sameWindow_def)
        moreover have "clearFrom i s = clearFrom (Suc i) s2"
          using True Some r by (subst clearFrom.simps) (simp add: s1_def s2_def Let_def)
        ultimately show ?thesis using sameWindow_trans by metis
      qed
    qed
  qed
qed

lemma modalOk_window: "sameWindow s (modalOk checked s)"
  by (simp add: modalOk_def sameWindow_def applyVisibility_def Let_def)

lemma updateEstimate_adjust:
  "windowSec (updateEstimate s) = windowSec s \<or> adjusted s (updateEstimate s)"
  by (auto simp: updateEstimate_def Let_def adjusted_def)

lemma updateEstimate_flag:
  "autoAdjusted (sampleRateEstimator s) \<Longrightarrow>
   autoAdjusted (sampleRateEstimator (updateEstimate s)) \<and> windowSec (updateEstimate s) = windowSec s"
  by (simp add: updateEstimate_def Let_def)

lemma recordInterval_adjust:
  "windowSec (recordInterval i s) = windowSec s \<or> adjusted s (recordInterval i s)"
proof -
  define s1 where "s1 = s\<lparr>sampleRateEstimator := (sampleRateEstimator s)\<lparr>sampleTimes :=
      (if length (sampleTimes (sampleRateEstimator s) @ [i]) > 20
       then tl (sampleTimes (sampleRateEstimator s) @ [i])
       else sampleTimes (sampleRateEstimator s) @ [i])\<rparr>\<rparr>"
  have r: "recordInterval i s = updateEstimate s1"
    by (simp add: recordInterval_def Let_def s1_def)
  have "windowSec s1 = windowSec s"
    and "autoAdjusted (sampleRateEstimator s1) = autoAdjusted (sampleRateEstimator s)"
    by (simp_all add: s1_def)
  with updateEstimate_adjust[of s1] show ?thesis
    unfolding r by (auto simp: adjusted_def)
qed

lemma recordInterval_flag:
  assumes "autoAdjusted (sampleRateEstimator s)"
  shows "autoAdjusted (sampleRateEstimator (recordInterval i s)) \<and>
         windowSec (recordInterval i s) = windowSec s"
proof -
  define s1 where "s1 = s\<lparr>sampleRateEstimator := (sampleRateEstimator s)\<lparr>sampleTimes :=
      (if length (sampleTimes (sampleRateEstimator s) @ [i]) > 20
       then tl (sampleTimes (sampleRateEstimator s) @ [i])
       else sampleTimes (sampleRateEstimator s) @ [i])\<rparr>\<rparr>"
  have r: "recordInterval i s = updateEstimate s1"
    by (simp add: recordInterval_def Let_def s1_def)
  have "windowSec s1 = windowSec s" and "autoAdjusted (sampleRateEstimator s1)"
    using assms by (simp_all add: s1_def)
  with updateEstimate_flag[of s1] show ?thesis
    unfolding r by simp
qed

lemma estimateSampleRate_shape:
  "estimateSampleRate x s = s \<or>
   (\<exists>now. estimateSampleRate x s =
      s\<lparr>sampleRateEstimator := (sampleRateEstimator s)\<lparr>lastTime := Some now\<rparr>\<rparr>) \<or>
   (\<exists>now i. estimateSampleRate x s =
      (recordInterval i s)\<lparr>sampleRateEstimator :=
         (sampleRateEstimator (recordInterval i s))\<lparr>lastTime := Some now\<rparr>\<rparr>)"
proof (cases x)
  case None
  then show ?thesis by (simp add: estimateSampleRate_def)
next
  case (Some now)
  show ?thesis
  proof (cases "lastTime (sampleRateEstimator s)")
    case None
    with Some have "estimateSampleRate x s =
        s\<lparr>sampleRateEstimator := (sampleRateEstimator s)\<lparr>lastTime := Some now\<rparr>\<rparr>"
      by (simp add: estimateSampleRate_def)
    then show ?thesis by blast
  next
    case lt: (Some lt)
    show ?thesis
    proof (cases "now - lt > 0 \<and> now - lt < 10")
      case False
      then have "(if now - lt > 0 \<and> now - lt < 10 then recordInterval (now - lt) s else s) = s"
        by (rule if_not_P)
      with Some lt have "estimateSampleRate x s =
          s\<lparr>sampleRateEstimator := (sampleRateEstimator s)\<lparr>lastTime := Some now\<rparr>\<rparr>"
        unfolding estimateSampleRate_def Let_def by (simp only: option.case)
      then show ?thesis by blast
    next
      case True
      then have "(if now - lt > 0 \<and> now - lt < 10 then recordInterval (now - lt) s else s)
          = recordInterval (now - lt) s"
        by (rule if_P)
      with Some lt have "estimateSampleRate x s =
          (recordInterval (now - lt) s)\<lparr>sampleRateEstimator :=
             (sampleRateEstimator (recordInterval (now - lt) s))\<lparr>lastTime := Some now\<rparr>\<rparr>"
        unfolding estimateSampleRate_def Let_def by (simp only: option.case)
      then show ?thesis by blast
    qed
  qed
qed

lemma estimateSampleRate_adjust:
  "windowSec (estimateSampleRate x s) = windowSec s \<or> adjusted s (estimateSampleRate x s)"
  using estimateSampleRate_shape[of x s]
proof (elim disjE exE)
  assume "estimateSampleRate x s = s"
  then show ?thesis by simp
next
  fix now
  assume "estimateSampleRate x s =
      s\<lparr>sampleRateEstimator := (sampleRateEstimator s)\<lparr>lastTime := Some now\<rparr>\<rparr>"
  then show ?thesis by simp
next
  fix now i
  assume eq: "estimateSampleRate x s =
      (recordInterval i s)\<lparr>sampleRateEstimator :=
         (sampleRateEstimator (recordInterval i s))\<lparr>lastTime := Some now\<rparr>\<rparr>"
  from recordInterval_adjust[of i s] show ?thesis
    unfolding eq by (auto simp: adjusted_def)
qed

lemma estimateSampleRate_flag:
  assumes "autoAdjusted (sampleRateEstimator s)"
  shows "autoAdjusted (sampleRateEstimator (estimateSampleRate x s)) \<and>
         windowSec (estimateSampleRate x s) = windowSec s"
  using estimateSampleRate_shape[of x s]
proof (elim disjE exE)
  assume "estimateSampleRate x s = s"
  with assms show ?thesis by simp
next
  fix now
  assume "estimateSampleRate x s =
      s\<lparr>sampleRateEstimator := (sampleRateEstimator s)\<lparr>lastTime := Some now\<rparr>\<rparr>"
  with assms show ?thesis by simp
next
  fix now i
  assume eq: "estimateSampleRate x s =
      (recordInterval i s)\<lparr>sampleRateEstimator :=
         (sampleRateEstimator (recordInterval i s))\<lparr>lastTime := Some now\<rparr>\<rparr>"
  from recordInterval_flag[OF assms, of i] show ?thesis
    unfolding eq by simp
qed

lemma sameWindow_adjusted: "sameWindow s1 s2 \<Longrightarrow> adjusted s s1 \<Longrightarrow> adjusted s s2"
  by (simp add: sameWindow_def adjusted_def)

lemma winInput_flag:
  "autoAdjusted (sampleRateEstimator s) \<Longrightarrow> autoAdjusted (sampleRateEstimator (winInput x s))"
  by (simp add: winInput_def Let_def split: option.splits)

lemma winInput_change:
  "windowSec (winInput x s) \<noteq> windowSec s \<Longrightarrow> autoAdjusted (sampleRateEstimator (winInput x s))"
  by (simp add: winInput_def Let_def split: option.splits if_splits)

lemma step_window:
  assumes "\<not> isWinInput e"
  shows "windowSec (graph2d (step e v)) = windowSec (graph2d v) \<or>
         adjusted (graph2d v) (graph2d (step e v))"
proof (cases e)
  case (PushSingle p clock)
  then show ?thesis using pushGraphSamples_window[of "graph2d v" p clock]
    by (simp add: sameWindow_def)
next
  case (PushBatch p clock)
  obtain x where w: "sameWindow (estimateSampleRate x (graph2d v)) (pushGraphBatch p clock (graph2d v))"
    using pushGraphBatch_window by blast
  from estimateSampleRate_adjust[of x "graph2d v"] show ?thesis
  proof
    assume "windowSec (estimateSampleRate x (graph2d v)) = windowSec (graph2d v)"
    with w PushBatch show ?thesis by (simp add: sameWindow_def)
  next
    assume "adjusted (graph2d v) (estimateSampleRate x (graph2d v))"
    with w PushBatch show ?thesis using sameWindow_adjusted by simp
  qed
next
  case (WinInput x)
  with assms show ?thesis by simp
next
  case ToggleClick
  then show ?thesis by simp
next
  case (ModalOkClick checked)
  then show ?thesis using modalOk_window[of "graph2d v" checked] by (simp add: sameWindow_def)
next
  case ClearClick
  then show ?thesis using clearFrom_window[of "graph2d v" 0]
    by (simp add: sameWindow_def clearAllData_def)
next
  case (SetNodeCount n)
  then show ?thesis by simp
next
  case (UpdateNodes p nowMs)
  then show ?thesis by simp
qed

lemma step_flag:
  assumes "autoAdjusted (sampleRateEstimator (graph2d v))"
  shows "autoAdjusted (sampleRateEstimator (graph2d (step e v)))"
proof (cases e)
  case (PushSingle p clock)
  then show ?thesis using assms pushGraphSamples_window[of "graph2d v" p clock]
    by (simp add: sameWindow_def)
next
  case (PushBatch p clock)
  obtain x where w: "sameWindow (estimateSampleRate x (graph2d v)) (pushGraphBatch p clock (graph2d v))"
    using pushGraphBatch_window by blast
  with estimateSampleRate_flag[OF assms, of x] PushBatch show ?thesis
    by (simp add: sameWindow_def)
next
  case (WinInput x)
  with assms winInput_flag show ?thesis by simp
next
  case ToggleClick
  with assms show ?thesis by simp
next
  case (ModalOkClick checked)
  then show ?thesis using assms modalOk_window[of "graph2d v" checked] by (simp add: sameWindow_def)
next
  case ClearClick
  then show ?thesis using assms clearFrom_window[of "graph2d v" 0]
    by (simp add: sameWindow_def clearAllData_def)
next
  case (SetNodeCount n)
  with assms show ?thesis by simp
next
  case (UpdateNodes p nowMs)
  with assms show ?thesis by simp
qed

lemma step_locked:
  assumes "autoAdjusted (sampleRateEstimator (graph2d v))" and "\<not> isWinInput e"
  shows "windowSec (graph2d (step e v)) = windowSec (graph2d v)"
  using step_window[OF assms(2), of v] assms(1) by (auto simp: adjusted_def)

lemma autoChanges_locked:
  "autoAdjusted (sampleRateEstimator (graph2d v)) \<Longrightarrow> autoChanges es v = 0"
proof (induction es arbitrary: v)
  case Nil
  show ?case by simp
next
  case (Cons e es)
  from Cons.prems have "autoAdjusted (sampleRateEstimator (graph2d (step e v)))"
    by (rule step_flag)
  then have "autoChanges es (step e v) = 0" by (rule Cons.IH)
  with step_locked[OF Cons.prems, of e] show ?case by auto
qed

lemma autoChanges_once: "autoChanges es v \<le> 1"
proof (induction es arbitrary: v)
  case Nil
  show ?case by simp
next
  case (Cons e es)
  show ?case
  proof (cases "\<not> isWinInput e \<and> windowSec (graph2d (step e v)) \<noteq> windowSec (graph2d v)")
    case True
    with step_window[of e v] have "adjusted (graph2d v) (graph2d (step e v))" by blast
    then have "autoChanges es (step e v) = 0"
      using autoChanges_locked by (simp add: adjusted_def)
    with True show ?thesis by simp
  next
    case False
    with Cons.IH[of "step e v"] show ?thesis by auto
  qed
qed

lemma median_ten_tenths: "median (replicate 9 (1 / 10) @ [1 / 10]) = 1 / 10"
  by code_simp

lemma primed_window: "windowSec (graph2d primed) = 60"
  by (simp add: primed_def init_graph_def)

lemma primed_tick: "windowSec (graph2d (step tick primed)) = 30"
  by (simp add: tick_def pushGraphBatch_def batchStart_def batchFinish_def pushVector_def
      ensureNodeCapacity_def estimateSampleRate_def recordInterval_def updateEstimate_def
      primed_def init_graph_def init_estimator_def median_ten_tenths recommend_def
      Math_round_def Let_def)

lemma primed_input: "windowSec (graph2d (step (WinInput (Some 10)) primed)) = 10"
  by (simp add: winInput_def primed_def init_graph_def Let_def)

text \<open>
  Claim C2: in any session, from any state, at most one step other than the operator's
  window input changes the display window; a step that does so sets the window to the
  recommendation, which is more than one second below the window it replaces; and once a
  window input of the operator has changed the window, the one-shot flag is set and no later
  step changes the window automatically.
\<close>

theorem auto_adjust_once:
  "autoChanges es v \<le> 1 \<and>
   (\<not> isWinInput e \<and> windowSec (graph2d (step e v)) \<noteq> windowSec (graph2d v) \<longrightarrow>
      windowSec (graph2d (step e v)) = recommendedWindow (sampleRateEstimator (graph2d (step e v))) \<and>
      windowSec (graph2d v) - recommendedWindow (sampleRateEstimator (graph2d (step e v))) > 1 \<and>
      windowSec (graph2d (step e v)) < windowSec (graph2d v)) \<and>
   (windowSec (graph2d (step (WinInput x) v)) \<noteq> windowSec (graph2d v) \<longrightarrow>
      autoAdjusted (sampleRateEstimator (graph2d (step (WinInput x) v))) \<and>
      autoChanges es (step (WinInput x) v) = 0)"
proof (intro conjI impI)
  show "autoChanges es v \<le> 1" by (rule autoChanges_once)
next
  assume a: "\<not> isWinInput e \<and> windowSec (graph2d (step e v)) \<noteq> windowSec (graph2d v)"
  with step_window[of e v] have ad: "adjusted (graph2d v) (graph2d (step e v))" by blast
  then show "windowSec (graph2d (step e v)) = recommendedWindow (sampleRateEstimator (graph2d (step e v)))"
    and "windowSec (graph2d v) - recommendedWindow (sampleRateEstimator (graph2d (step e v))) > 1"
    and "windowSec (graph2d (step e v)) < windowSec (graph2d v)"
    by (simp_all add: adjusted_def)
next
  assume "windowSec (graph2d (step (WinInput x) v)) \<noteq> windowSec (graph2d v)"
  then show f: "autoAdjusted (sampleRateEstimator (graph2d (step (WinInput x) v)))"
    using winInput_change[of x "graph2d v"] by simp
  then show "autoChanges es (step (WinInput x) v) = 0" by (rule autoChanges_locked)
qed

theorem auto_adjust_once_witness:
  "\<not> isWinInput tick \<and>
   windowSec (graph2d (step tick primed)) \<noteq> windowSec (graph2d primed) \<and>
   windowSec (graph2d (step tick primed)) = 30 \<and>
   recommendedWindow (sampleRateEstimator (graph2d (step tick primed))) = 30 \<and>
   autoChanges [tick, tick] primed \<le> 1 \<and>
   windowSec (graph2d (step (WinInput (Some 10)) primed)) \<noteq> windowSec (graph2d primed) \<and>
   autoAdjusted (sampleRateEstimator (graph2d (step (WinInput (Some 10)) primed))) \<and>
   autoChanges [tick, tick] (step (WinInput (Some 10)) primed) = 0"
proof -
  have t: "\<not> isWinInput tick" by (simp add: tick_def)
  have c: "windowSec (graph2d (step tick primed)) \<noteq> windowSec (graph2d primed)"
    unfolding primed_tick primed_window by simp
  have m: "windowSec (graph2d (step (WinInput (Some 10)) primed)) \<noteq> windowSec (graph2d primed)"
    unfolding primed_input primed_window by simp
  note th = auto_adjust_once[of "[tick, tick]" primed tick "Some 10"]
  from th t c have "windowSec (graph2d (step tick primed)) =
      recommendedWindow (sampleRateEstimator (graph2d (step tick primed)))"
    by blast
  then have r: "recommendedWindow (sampleRateEstimator (graph2d (step tick primed))) = 30"
    by (simp add: primed_tick)
  from th m have "autoAdjusted (sampleRateEstimator (graph2d (step (WinInput (Some 10)) primed)))"
    and "autoChanges [tick, tick] (step (WinInput (Some 10)) primed) = 0"
    by blast+
  moreover from th have "autoChanges [tick, tick] primed \<le> 1" by blast
  ultimately show ?thesis using t c m r primed_tick by blast
qed

section \<open>The first payload of a session\<close>

lemma upt_0_2: "[0..<min 15 (Suc (Suc 0))] = [0, Suc 0]"
  by (simp add: upt_rec)

lemma first_push:
  assumes "0 \<le> w"
  shows "pushGraphSamples (twoNodes x a b) c (init_graph w) =
     (init_graph w)\<lparr>t0Payload := Some x,
        dataByNode := (dataByNode (init_graph w))
           (0 \<mapsto> [\<lparr>st = 0, sy = a\<rparr>], Suc 0 \<mapsto> [\<lparr>st = 0, sy = b\<rparr>]),
        externalActive := True, lastExternalSec := 0\<rparr>"
  using assms
  by (simp add: pushGraphSamples_def twoNodes_def relativeTime_def singleFinish_def pushVector_def
      ensureNodeCapacity_def upt_0_2 numAt_def pushSample_def pushInto_def init_graph_def
      init_estimator_def Let_def double_zero)

section \<open>Clearing\<close>

lemma map_display_update:
  "map display (rs[i := (rs ! i)\<lparr>painted := False\<rparr>]) = map display rs"
proof (rule nth_equalityI)
  show "length (map display (rs[i := (rs ! i)\<lparr>painted := False\<rparr>])) = length (map display rs)"
    by simp
next
  fix j
  assume "j < length (map display (rs[i := (rs ! i)\<lparr>painted := False\<rparr>]))"
  then have "j < length rs" by simp
  then show "map display (rs[i := (rs ! i)\<lparr>painted := False\<rparr>]) ! j = map display rs ! j"
    by (cases "j = i") simp_all
qed

lemma clearFrom_cleared:
  "clearable i s \<Longrightarrow> is_Done (clearFrom i s) \<and> cleared i s (state_of (clearFrom i s))"
proof (induction i s rule: clearFrom.induct)
  case (1 i s)
  show ?case
  proof (cases "i < nodeCount s")
    case False
    then show ?thesis by (auto simp: clearFrom.simps[of i s] cleared_def)
  next
    case True
    with "1.prems" obtain arr where arr: "dataByNode s i = Some arr" and len: "i < length (rowsEls s)"
      unfolding clearable_def by (metis le_refl not_None_eq)
    define s1 where "s1 = s\<lparr>dataByNode := (dataByNode s)(i \<mapsto> [])\<rparr>"
    define s2 where "s2 = s1\<lparr>rowsEls := (rowsEls s1)[i := (rowsEls s1 ! i)\<lparr>painted := False\<rparr>]\<rparr>"
    have r: "i < length (rowsEls s1)" using len by (simp add: s1_def)
    have eq: "clearFrom i s = clearFrom (Suc i) s2"
      using True arr r by (subst clearFrom.simps) (simp add: s1_def s2_def Let_def)
    have "clearable (Suc i) s2"
      using "1.prems" by (simp add: clearable_def s2_def s1_def)
    with "1.IH"[OF True arr s1_def r] have ih: "is_Done (clearFrom (Suc i) s2)"
      "cleared (Suc i) s2 (state_of (clearFrom (Suc i) s2))"
      by (simp_all add: s2_def)
    have "cleared i s (state_of (clearFrom (Suc i) s2))"
      unfolding cleared_def
    proof (intro conjI allI impI)
      let ?s' = "state_of (clearFrom (Suc i) s2)"
      show "nodeCount ?s' = nodeCount s" using ih(2) by (simp add: cleared_def s2_def s1_def)
      show "visibleSet ?s' = visibleSet s" using ih(2) by (simp add: cleared_def s2_def s1_def)
      show "length (rowsEls ?s') = length (rowsEls s)" using ih(2) by (simp add: cleared_def s2_def s1_def)
      show "map display (rowsEls ?s') = map display (rowsEls s)"
        using ih(2) by (simp add: cleared_def s2_def s1_def map_display_update)
      show "dataByNode ?s' j = (if i \<le> j \<and> j < nodeCount s then Some [] else dataByNode s j)" for j
        using ih(2) True by (auto simp: cleared_def s2_def s1_def)
      show "painted (rowsEls ?s' ! j) = (if i \<le> j \<and> j < nodeCount s then False else painted (rowsEls s ! j))"
        if "j < length (rowsEls s)" for j
        using ih(2) True that len by (auto simp: cleared_def s2_def s1_def nth_list_update)
    qed
    with ih(1) show ?thesis unfolding eq by simp
  qed
qed

text \<open>
  Claim C7: clear-all empties the buffer of every channel and blanks its canvas, raises
  nothing, and leaves the channel count, the set of visible channels, the shown rows and
  the whole 3D scene (with its layout positions) as they were; selecting exactly channel
  \<open>k\<close> in the dialog and then clearing leaves exactly \<open>k\<close> visible, with an empty buffer.
  The state is one in which every channel below the count has a buffer and a row; every state
  of a session is (\<open>reachable_clearable\<close> below).
\<close>

theorem clear_all_keeps_channels:
  assumes "clearable 0 (graph2d v)"
  shows "is_Done (clearAllData (graph2d v)) \<and>
         (\<forall>i < nodeCount (graph2d v).
            dataByNode (graph2d (step ClearClick v)) i = Some [] \<and>
            \<not> painted (rowsEls (graph2d (step ClearClick v)) ! i)) \<and>
         nodeCount (graph2d (step ClearClick v)) = nodeCount (graph2d v) \<and>
         visibleSet (graph2d (step ClearClick v)) = visibleSet (graph2d v) \<and>
         map display (rowsEls (graph2d (step ClearClick v))) = map display (rowsEls (graph2d v)) \<and>
         scene3d (step ClearClick v) = scene3d v \<and>
         (k < nodeCount (graph2d v) \<longrightarrow>
            visibleSet (graph2d (run [ModalOkClick [k], ClearClick] v)) = {k} \<and>
            dataByNode (graph2d (run [ModalOkClick [k], ClearClick] v)) k = Some [])"
proof -
  from clearFrom_cleared[OF assms] have d: "is_Done (clearAllData (graph2d v))"
    and c: "cleared 0 (graph2d v) (state_of (clearAllData (graph2d v)))"
    by (simp_all add: clearAllData_def)
  have rows: "i < length (rowsEls (graph2d v))" if "i < nodeCount (graph2d v)" for i
    using assms that by (simp add: clearable_def)
  define g where "g = modalOk [k] (graph2d v)"
  have g: "visibleSet g = {k}" "nodeCount g = nodeCount (graph2d v)" "clearable 0 g"
    using assms by (simp_all add: g_def modalOk_def applyVisibility_def clearable_def)
  from clearFrom_cleared[OF g(3)] have c2: "cleared 0 g (state_of (clearAllData g))"
    by (simp add: clearAllData_def)
  have "visibleSet (state_of (clearAllData g)) = {k}"
    using c2 g(1) by (simp add: cleared_def)
  moreover have "dataByNode (state_of (clearAllData g)) k = Some []" if "k < nodeCount (graph2d v)"
    using c2 g(2) that by (simp add: cleared_def)
  ultimately show ?thesis
    using d c rows by (simp add: cleared_def g_def)
qed

lemma first_push_5:
  "pushGraphSamples (twoNodes x a b) c (init_graph 5) =
     (init_graph 5)\<lparr>t0Payload := Some x,
        dataByNode := (dataByNode (init_graph 5))
           (0 \<mapsto> [\<lparr>st = 0, sy = a\<rparr>], Suc 0 \<mapsto> [\<lparr>st = 0, sy = b\<rparr>]),
        externalActive := True, lastExternalSec := 0\<rparr>"
  by (rule first_push) simp

lemma pushed_clearable:
  "clearable 0 (pushGraphSamples (twoNodes 100 (1 / 100) (- (2 / 100))) 0 (init_graph 5))"
  unfolding first_push_5 by (simp add: clearable_def init_graph_def)

theorem clear_all_keeps_channels_witness:
  "clearable 0 (graph2d played) \<and> 0 < nodeCount (graph2d played) \<and>
   dataByNode (graph2d played) 0 = Some [\<lparr>st = 0, sy = 1 / 100\<rparr>] \<and>
   dataByNode (graph2d (step ClearClick played)) 0 = Some [] \<and>
   nodeCount (graph2d (step ClearClick played)) = 15 \<and>
   visibleSet (graph2d (run [ModalOkClick [0], ClearClick] played)) = {0} \<and>
   dataByNode (graph2d (run [ModalOkClick [0], ClearClick] played)) 0 = Some []"
proof -
  have c: "clearable 0 (graph2d played)" using pushed_clearable by (simp add: played_def)
  have n: "nodeCount (graph2d played) = 15"
    and d: "dataByNode (graph2d played) 0 = Some [\<lparr>st = 0, sy = 1 / 100\<rparr>]"
    unfolding played_def viewer.simps first_push_5 by (simp_all add: init_graph_def)
  from clear_all_keeps_channels[OF c, of 0] n d c show ?thesis by simp
qed

section \<open>Growth of the channel set by a batch\<close>

lemma agreeBelow_refl: "agreeBelow n s s"
  by (simp add: agreeBelow_def)

lemma agreeBelow_trans: "agreeBelow n a b \<Longrightarrow> agreeBelow n b c \<Longrightarrow> agreeBelow n a c"
  by (simp add: agreeBelow_def)

lemma fold_growNode_data:
  "dataByNode (fold growNode [a..<b] s) j =
     (if a \<le> j \<and> j < b then Some [] else dataByNode s j)"
proof (induction "b - a" arbitrary: a s)
  case 0
  then show ?case by auto
next
  case (Suc k)
  then have ab: "a < b" and k: "k = b - Suc a" by linarith+
  have "fold growNode [a..<b] s = fold growNode [Suc a..<b] (growNode a s)"
    using ab by (simp add: upt_conv_Cons)
  then show ?case
    using Suc.hyps(1)[OF k, of "growNode a s"] ab
    by (auto simp: growNode_def addRow_def Let_def)
qed

lemma fold_growNode_fields:
  "nodeCount (fold growNode is s) = nodeCount s \<and> sameWindow s (fold growNode is s) \<and>
   t0Payload (fold growNode is s) = t0Payload s"
proof (induction "is" arbitrary: s)
  case Nil
  show ?case by (simp add: sameWindow_def)
next
  case (Cons i "is")
  from Cons[of "growNode i s"] show ?case
    by (simp add: sameWindow_def growNode_def addRow_def Let_def)
qed

lemma ensureNodeCapacity_count: "nodeCount (ensureNodeCapacity m s) = max m (nodeCount s)"
  by (simp add: ensureNodeCapacity_def resize_def applyVisibility_def)

lemma ensureNodeCapacity_data:
  "dataByNode (ensureNodeCapacity m s) j =
     (if nodeCount s \<le> j \<and> j < m then Some [] else dataByNode s j)"
  by (simp add: ensureNodeCapacity_def resize_def applyVisibility_def fold_growNode_data)

lemma ensureNodeCapacity_agree: "agreeBelow (nodeCount s) (ensureNodeCapacity m s) s"
  using fold_growNode_fields[of "[nodeCount s..<m]" s]
  by (simp add: agreeBelow_def ensureNodeCapacity_data)
    (simp add: ensureNodeCapacity_def resize_def applyVisibility_def sameWindow_def)

lemma pushSample_agree:
  assumes "agreeBelow n sA sB" and "i < n"
  shows "is_Done (pushSample i t y sA) = is_Done (pushSample i t y sB) \<and>
         agreeBelow n (state_of (pushSample i t y sA)) (state_of (pushSample i t y sB))"
  using assms by (auto simp: pushSample_def agreeBelow_def split: option.splits)

lemma pushSample_keeps:
  "nodeCount (state_of (pushSample i t y s)) = nodeCount s \<and>
   (dataByNode s j \<noteq> None \<longrightarrow> dataByNode (state_of (pushSample i t y s)) j \<noteq> None) \<and>
   (j \<noteq> i \<longrightarrow> dataByNode (state_of (pushSample i t y s)) j = dataByNode s j) \<and>
   windowSec (state_of (pushSample i t y s)) = windowSec s \<and>
   sampleRateEstimator (state_of (pushSample i t y s)) = sampleRateEstimator s \<and>
   t0Payload (state_of (pushSample i t y s)) = t0Payload s"
  by (auto simp: pushSample_def split: option.splits)

lemma pushAmps_agree:
  "agreeBelow n sA sB \<Longrightarrow> \<forall>i \<in> set is. i < n \<and> numAt vsA i = numAt vsB i \<Longrightarrow>
   is_Done (pushAmps is t vsA sA) = is_Done (pushAmps is t vsB sB) \<and>
   agreeBelow n (state_of (pushAmps is t vsA sA)) (state_of (pushAmps is t vsB sB))"
proof (induction "is" arbitrary: sA sB)
  case Nil
  then show ?case by simp
next
  case (Cons i "is")
  from Cons.prems have i: "i < n" and eq: "numAt vsA i = numAt vsB i"
    and rest: "\<forall>i \<in> set is. i < n \<and> numAt vsA i = numAt vsB i" by simp_all
  show ?case
  proof (cases "numAt vsB i")
    case None
    with eq Cons.IH[OF Cons.prems(1) rest] show ?thesis by simp
  next
    case (Some y)
    from pushSample_agree[OF Cons.prems(1) i, of t y]
    have d: "is_Done (pushSample i t y sA) = is_Done (pushSample i t y sB)"
      and a: "agreeBelow n (state_of (pushSample i t y sA)) (state_of (pushSample i t y sB))"
      by simp_all
    show ?thesis
    proof (cases "pushSample i t y sA")
      case (Done sA1)
      with d obtain sB1 where b: "pushSample i t y sB = Done sB1"
        by (cases "pushSample i t y sB") simp_all
      from a Done b have "agreeBelow n sA1 sB1" by simp
      from Cons.IH[OF this rest] Some eq Done b show ?thesis by simp
    next
      case (Thrown sA1)
      with d obtain sB1 where b: "pushSample i t y sB = Thrown sB1"
        by (cases "pushSample i t y sB") simp_all
      with a Thrown Some eq show ?thesis by simp
    qed
  qed
qed

lemma pushAmps_keeps:
  "nodeCount (state_of (pushAmps is t vs s)) = nodeCount s \<and>
   (dataByNode s j \<noteq> None \<longrightarrow> dataByNode (state_of (pushAmps is t vs s)) j \<noteq> None) \<and>
   (j \<notin> set is \<longrightarrow> dataByNode (state_of (pushAmps is t vs s)) j = dataByNode s j) \<and>
   windowSec (state_of (pushAmps is t vs s)) = windowSec s \<and>
   sampleRateEstimator (state_of (pushAmps is t vs s)) = sampleRateEstimator s \<and>
   t0Payload (state_of (pushAmps is t vs s)) = t0Payload s"
proof (induction "is" arbitrary: s)
  case Nil
  show ?case by simp
next
  case (Cons i "is")
  show ?case
  proof (cases "numAt vs i")
    case None
    with Cons[of s] show ?thesis by simp
  next
    case (Some y)
    show ?thesis
    proof (cases "pushSample i t y s")
      case (Done s1)
      with pushSample_keeps[of i t y s j] Cons[of s1] Some show ?thesis by simp
    next
      case (Thrown s1)
      with pushSample_keeps[of i t y s j] Some show ?thesis by simp
    qed
  qed
qed

lemma pushAmps_append:
  "pushAmps (xs @ ys) t vs s =
     (case pushAmps xs t vs s of Done s1 \<Rightarrow> pushAmps ys t vs s1 | Thrown s1 \<Rightarrow> Thrown s1)"
  by (induction xs arbitrary: s) (simp_all split: option.splits outcome.splits)

lemma agreeBelow_mono: "m \<le> n \<Longrightarrow> agreeBelow n a b \<Longrightarrow> agreeBelow m a b"
  by (simp add: agreeBelow_def)

lemma pushAmps_single:
  assumes "dataByNode s n \<noteq> None"
  shows "is_Done (pushAmps [n] t vs s) \<and> agreeBelow n (state_of (pushAmps [n] t vs s)) s"
proof -
  from assms obtain arr where "dataByNode s n = Some arr" by blast
  then show ?thesis
    by (cases "numAt vs n") (simp_all add: pushSample_def agreeBelow_def)
qed

lemma pushVector_agree:
  assumes r: "agreeBelow n sA sB" and g: "grown n sA" and b: "nodeCount sB = n"
    and len: "length vs = Suc n"
  shows "is_Done (pushVector t vs sA) = is_Done (pushVector t (take n vs) sB) \<and>
         agreeBelow n (state_of (pushVector t vs sA)) (state_of (pushVector t (take n vs) sB)) \<and>
         grown n (state_of (pushVector t vs sA)) \<and>
         nodeCount (state_of (pushVector t vs sA)) = Suc n \<and>
         nodeCount (state_of (pushVector t (take n vs) sB)) = n"
proof -
  define sA1 where "sA1 = ensureNodeCapacity (Suc n) sA"
  have cA1: "nodeCount sA1 = Suc n"
    using g by (auto simp: sA1_def ensureNodeCapacity_count grown_def)
  have nA1: "dataByNode sA1 n \<noteq> None"
    using g by (auto simp: sA1_def ensureNodeCapacity_data grown_def)
  have "n \<le> nodeCount sA" using g by (auto simp: grown_def)
  then have "agreeBelow n sA1 sA"
    unfolding sA1_def using ensureNodeCapacity_agree agreeBelow_mono by blast
  from this r have r1: "agreeBelow n sA1 sB" by (rule agreeBelow_trans)
  have eB: "ensureNodeCapacity (length (take n vs)) sB = sB"
    using b len by (simp add: ensureNodeCapacity_def)
  have pB: "pushVector t (take n vs) sB = pushAmps [0..<n] t (take n vs) sB"
    unfolding pushVector_def Let_def eB using b len by simp
  have pA: "pushVector t vs sA =
      (case pushAmps [0..<n] t vs sA1 of
         Done s1 \<Rightarrow> pushAmps [n] t vs s1 | Thrown s1 \<Rightarrow> Thrown s1)"
    unfolding pushVector_def Let_def using cA1 len
    by (simp add: sA1_def[symmetric] pushAmps_append[symmetric])
  have "\<forall>i \<in> set [0..<n]. i < n \<and> numAt vs i = numAt (take n vs) i"
    using len by (simp add: numAt_def)
  from pushAmps_agree[OF r1 this, of t]
  have d: "is_Done (pushAmps [0..<n] t vs sA1) = is_Done (pushAmps [0..<n] t (take n vs) sB)"
    and a: "agreeBelow n (state_of (pushAmps [0..<n] t vs sA1))
                         (state_of (pushAmps [0..<n] t (take n vs) sB))"
    by simp_all
  have kA: "nodeCount (state_of (pushAmps [0..<n] t vs sA1)) = Suc n"
    "dataByNode (state_of (pushAmps [0..<n] t vs sA1)) n \<noteq> None"
    using pushAmps_keeps[of "[0..<n]" t vs sA1 n] cA1 nA1 by simp_all
  have kB: "nodeCount (state_of (pushAmps [0..<n] t (take n vs) sB)) = n"
    using pushAmps_keeps[of "[0..<n]" t "take n vs" sB 0] b by simp
  show ?thesis
  proof (cases "pushAmps [0..<n] t vs sA1")
    case (Thrown s1)
    with d a kA kB show ?thesis unfolding pA pB by (simp add: grown_def)
  next
    case (Done s1)
    with kA have n1: "dataByNode s1 n \<noteq> None" and c1: "nodeCount s1 = Suc n" by simp_all
    from pushAmps_single[OF n1, of t vs]
    have d2: "is_Done (pushAmps [n] t vs s1)" and a2: "agreeBelow n (state_of (pushAmps [n] t vs s1)) s1"
      by simp_all
    have k2: "nodeCount (state_of (pushAmps [n] t vs s1)) = Suc n"
      "dataByNode (state_of (pushAmps [n] t vs s1)) n \<noteq> None"
      using pushAmps_keeps[of "[n]" t vs s1 n] c1 n1 by simp_all
    from a Done have "agreeBelow n s1 (state_of (pushAmps [0..<n] t (take n vs) sB))" by simp
    from a2 this have "agreeBelow n (state_of (pushAmps [n] t vs s1))
        (state_of (pushAmps [0..<n] t (take n vs) sB))" by (rule agreeBelow_trans)
    with d d2 k2 kB Done show ?thesis unfolding pA pB by (simp add: grown_def)
  qed
qed

lemma pushVector_count:
  "nodeCount (state_of (pushVector t vs s)) = max (length vs) (nodeCount s)"
  unfolding pushVector_def Let_def
  using pushAmps_keeps[of _ t vs "ensureNodeCapacity (length vs) s" 0]
  by (simp add: ensureNodeCapacity_count)

lemma pushFrames_count_mono:
  "nodeCount s \<le> nodeCount (state_of (pushFrames fs clock s))"
proof (induction fs arbitrary: s)
  case Nil
  show ?case by simp
next
  case (Cons f fs)
  obtain tk vs where f: "f = (tk, vs)" by (cases f)
  show ?case
  proof (cases tk)
    case None
    with f Cons[of s] show ?thesis by simp
  next
    case (Some tAbs)
    define tRel where "tRel = (case t0Payload s of Some t0 \<Rightarrow> double (tAbs - t0) | None \<Rightarrow> clock)"
    have m: "nodeCount s \<le> nodeCount (state_of (pushVector tRel vs s))"
      by (simp add: pushVector_count)
    show ?thesis
    proof (cases "pushVector tRel vs s")
      case (Done s1)
      with m Cons[of s1] f Some show ?thesis by (simp add: tRel_def[symmetric])
    next
      case (Thrown s1)
      with m f Some show ?thesis by (simp add: tRel_def[symmetric])
    qed
  qed
qed

lemma pushFrames_agree:
  assumes "agreeBelow n sA sB" and "grown n sA" and "nodeCount sB = n"
    and "\<forall>(tk, vs) \<in> set fs. tk \<noteq> None \<longrightarrow> length vs = Suc n"
  shows "is_Done (pushFrames fs clock sA)
           = is_Done (pushFrames (map (\<lambda>(tk, vs). (tk, take n vs)) fs) clock sB) \<and>
         agreeBelow n (state_of (pushFrames fs clock sA))
           (state_of (pushFrames (map (\<lambda>(tk, vs). (tk, take n vs)) fs) clock sB)) \<and>
         grown n (state_of (pushFrames fs clock sA)) \<and>
         ((\<exists>(tk, vs) \<in> set fs. tk \<noteq> None) \<longrightarrow> nodeCount (state_of (pushFrames fs clock sA)) = Suc n) \<and>
         nodeCount (state_of (pushFrames (map (\<lambda>(tk, vs). (tk, take n vs)) fs) clock sB)) = n"
  using assms
proof (induction fs arbitrary: sA sB)
  case Nil
  then show ?case by simp
next
  case (Cons f fs)
  obtain tk vs where f: "f = (tk, vs)" by (cases f)
  from Cons.prems(4) have rest: "\<forall>(tk, vs) \<in> set fs. tk \<noteq> None \<longrightarrow> length vs = Suc n"
    by simp
  show ?case
  proof (cases tk)
    case None
    with f Cons.IH[OF Cons.prems(1,2,3) rest] show ?thesis by simp
  next
    case (Some tAbs)
    with Cons.prems(4) f have len: "length vs = Suc n" by simp
    define tRel where "tRel = (case t0Payload sA of Some t0 \<Rightarrow> double (tAbs - t0) | None \<Rightarrow> clock)"
    have tB: "(case t0Payload sB of Some t0 \<Rightarrow> double (tAbs - t0) | None \<Rightarrow> clock) = tRel"
      using Cons.prems(1) by (simp add: tRel_def agreeBelow_def)
    from pushVector_agree[OF Cons.prems(1,2,3) len, of tRel]
    have d: "is_Done (pushVector tRel vs sA) = is_Done (pushVector tRel (take n vs) sB)"
      and a: "agreeBelow n (state_of (pushVector tRel vs sA)) (state_of (pushVector tRel (take n vs) sB))"
      and g: "grown n (state_of (pushVector tRel vs sA))"
      and cA: "nodeCount (state_of (pushVector tRel vs sA)) = Suc n"
      and cB: "nodeCount (state_of (pushVector tRel (take n vs) sB)) = n"
      by simp_all
    show ?thesis
    proof (cases "pushVector tRel vs sA")
      case (Thrown sA1)
      with d obtain sB1 where b: "pushVector tRel (take n vs) sB = Thrown sB1"
        by (cases "pushVector tRel (take n vs) sB") simp_all
      with Thrown a g cA cB f Some tB show ?thesis by (simp add: tRel_def[symmetric])
    next
      case (Done sA1)
      with d obtain sB1 where b: "pushVector tRel (take n vs) sB = Done sB1"
        by (cases "pushVector tRel (take n vs) sB") simp_all
      from a g cA cB Done b have p: "agreeBelow n sA1 sB1" "grown n sA1" "nodeCount sB1 = n"
        and c1: "nodeCount sA1 = Suc n" by simp_all
      have keep: "nodeCount (state_of (pushFrames fs clock sA1)) = Suc n"
      proof -
        from Cons.IH[OF p rest] have "grown n (state_of (pushFrames fs clock sA1))" by simp
        moreover have "nodeCount sA1 \<le> nodeCount (state_of (pushFrames fs clock sA1))"
          by (rule pushFrames_count_mono)
        ultimately show ?thesis using c1 by (auto simp: grown_def)
      qed
      from Cons.IH[OF p rest] keep Done b f Some tB show ?thesis
        by (simp add: tRel_def[symmetric])
    qed
  qed
qed

lemma updateEstimate_channels:
  "nodeCount (updateEstimate s) = nodeCount s \<and> dataByNode (updateEstimate s) = dataByNode s \<and>
   t0Payload (updateEstimate s) = t0Payload s"
  by (simp add: updateEstimate_def Let_def)

lemma estimateSampleRate_channels:
  "nodeCount (estimateSampleRate x s) = nodeCount s \<and>
   dataByNode (estimateSampleRate x s) = dataByNode s \<and>
   t0Payload (estimateSampleRate x s) = t0Payload s"
  using estimateSampleRate_shape[of x s]
  by (auto simp: recordInterval_def Let_def updateEstimate_channels)

lemma batchStart_channels:
  "nodeCount (batchStart tsl fl s) = nodeCount s \<and>
   dataByNode (batchStart tsl fl s) = dataByNode s"
  by (simp add: batchStart_def Let_def estimateSampleRate_channels)

lemma batchFinish_channels:
  "nodeCount (batchFinish r) = nodeCount (state_of r) \<and>
   dataByNode (batchFinish r) = dataByNode (state_of r)"
  by (cases r) (simp_all add: batchFinish_def)

text \<open>
  Claim C6: a batch whose frames (those with a finite timestamp, of which there is at least
  one; the others are skipped) carry one amplitude more than there are channels makes the
  channel count exactly one larger; the growth itself leaves the buffers of the existing
  channels as they were; and after the batch each existing channel holds exactly what it
  holds after the same batch cut to the existing channels, which causes no growth.
\<close>

theorem batch_grows_channel_set:
  assumes "ts b = Some tsl" and "frames b = Some fl"
    and "\<forall>(tk, vs) \<in> set (zip tsl fl). tk \<noteq> None \<longrightarrow> length vs = nodeCount s + 1"
    and "\<exists>(tk, vs) \<in> set (zip tsl fl). tk \<noteq> None"
  shows "nodeCount (pushGraphBatch (Some b) clock s) = nodeCount s + 1 \<and>
         (\<forall>i < nodeCount s.
            dataByNode (ensureNodeCapacity (nodeCount s + 1) s) i = dataByNode s i) \<and>
         nodeCount (pushGraphBatch (Some (narrowed (nodeCount s) b)) clock s) = nodeCount s \<and>
         (\<forall>i < nodeCount s.
            dataByNode (pushGraphBatch (Some b) clock s) i =
            dataByNode (pushGraphBatch (Some (narrowed (nodeCount s) b)) clock s) i)"
proof -
  define n where "n = nodeCount s"
  define s2 where "s2 = batchStart tsl fl s"
  define fs where "fs = zip tsl fl"
  define fs' where "fs' = map (\<lambda>(tk, vs). (tk, take n vs)) fs"
  have z: "zip tsl (map (take n) fl) = fs'"
    by (simp add: fs'_def fs_def zip_map2)
  have s2': "batchStart tsl (map (take n) fl) s = s2"
    by (simp add: s2_def batchStart_def)
  have pA: "pushGraphBatch (Some b) clock s = batchFinish (pushFrames fs clock s2)"
    using assms(1,2) by (simp add: pushGraphBatch_def s2_def fs_def)
  have pB: "pushGraphBatch (Some (narrowed n b)) clock s = batchFinish (pushFrames fs' clock s2)"
    using assms(1,2) by (simp add: pushGraphBatch_def narrowed_def z s2')
  have c2: "nodeCount s2 = n" by (simp add: s2_def n_def batchStart_channels)
  then have g: "grown n s2" by (simp add: grown_def)
  have h: "\<forall>(tk, vs) \<in> set fs. tk \<noteq> None \<longrightarrow> length vs = Suc n"
    using assms(3) by (simp add: fs_def n_def)
  have e: "\<exists>(tk, vs) \<in> set fs. tk \<noteq> None" using assms(4) by (simp add: fs_def)
  from pushFrames_agree[OF agreeBelow_refl g c2 h, of clock] e
  have a: "agreeBelow n (state_of (pushFrames fs clock s2)) (state_of (pushFrames fs' clock s2))"
    and cA: "nodeCount (state_of (pushFrames fs clock s2)) = Suc n"
    and cB: "nodeCount (state_of (pushFrames fs' clock s2)) = n"
    unfolding fs'_def by blast+
  have "dataByNode (ensureNodeCapacity (n + 1) s) i = dataByNode s i" if "i < n" for i
    using that by (simp add: ensureNodeCapacity_data n_def)
  moreover have "dataByNode (pushGraphBatch (Some b) clock s) i =
      dataByNode (pushGraphBatch (Some (narrowed n b)) clock s) i" if "i < n" for i
    unfolding pA pB using a that by (simp add: batchFinish_channels agreeBelow_def)
  ultimately show ?thesis
    unfolding n_def[symmetric] pA pB using cA cB by (simp add: batchFinish_channels)
qed

theorem batch_grows_channel_set_witness:
  "ts wide = Some [Some 0] \<and> frames wide = Some [replicate 16 (Some 1)] \<and>
   nodeCount (init_graph 5) = 15 \<and>
   nodeCount (pushGraphBatch (Some wide) 0 (init_graph 5)) = 16 \<and>
   dataByNode (pushGraphBatch (Some wide) 0 (init_graph 5)) 3 =
     dataByNode (pushGraphBatch (Some (narrowed 15 wide)) 0 (init_graph 5)) 3"
proof -
  have t: "ts wide = Some [Some 0]" and f: "frames wide = Some [replicate 16 (Some 1)]"
    by (simp_all add: wide_def)
  have n: "nodeCount (init_graph 5) = 15" by (simp add: init_graph_def)
  have h: "\<forall>(tk, vs) \<in> set (zip [Some (0 :: real)] [replicate 16 (Some (1 :: real))]).
      tk \<noteq> None \<longrightarrow> length vs = nodeCount (init_graph 5) + 1"
    by (simp add: n)
  have e: "\<exists>(tk, vs) \<in> set (zip [Some (0 :: real)] [replicate 16 (Some (1 :: real))]). tk \<noteq> None"
    by simp
  from batch_grows_channel_set[OF t f h e, of 0] show ?thesis
    unfolding n using t f by simp
qed

section \<open>The clock origin of a session\<close>























lemma double_tenth: "double (1 / 10) = 3602879701896397 / 36028797018963968"
proof -
  have "binaryRound 53 (- 1022) (1 / 10) =
          of_int (rne ((1 / 10) / 2 powr (of_int (max (- 4) (- 1022)) - (real 53 - 1))))
            * 2 powr (of_int (max (- 4) (- 1022)) - (real 53 - 1))"
    by (rule binaryRound_at) (simp_all add: powr_minus_divide)
  also have "\<dots> = 3602879701896397 / 36028797018963968"
    by (simp add: powr_minus_divide rne_def Let_def)
  finally show ?thesis by (simp add: double_def)
qed






section \<open>Channel capacity\<close>

lemma radius_growNode3: "radius (growNode3 m i s) = radius s"
  by (simp add: radius_def growNode3_def)

lemma fold_growNode3:
  "radius (fold (growNode3 m) [a..<b] s) = radius s \<and>
   nodeCount3 (fold (growNode3 m) [a..<b] s) = nodeCount3 s \<and>
   latestAmplitudes (fold (growNode3 m) [a..<b] s) = latestAmplitudes s \<and>
   meshes (fold (growNode3 m) [a..<b] s) = meshes s @ map (\<lambda>i. newMesh (radius s) i m) [a..<b] \<and>
   basePositions (fold (growNode3 m) [a..<b] s)
     = basePositions s @ map (\<lambda>i. circlePosition (radius s) i m) [a..<b] \<and>
   labels (fold (growNode3 m) [a..<b] s) = labels s @ map (\<lambda>i. newLabel (radius s) i m) [a..<b] \<and>
   amplitudes (fold (growNode3 m) [a..<b] s) j
     = (if a \<le> j \<and> j < b then Some (6 / 1000 + 4 / 1000 * (real j / real m)) else amplitudes s j) \<and>
   freqs (fold (growNode3 m) [a..<b] s) j
     = (if a \<le> j \<and> j < b then Some (1 / 2 + 5 / 100 * real j) else freqs s j) \<and>
   phases (fold (growNode3 m) [a..<b] s) j
     = (if a \<le> j \<and> j < b then Some ((real j / real m) * pi * 2) else phases s j)"
proof (induction "b - a" arbitrary: a s)
  case 0
  then show ?case by auto
next
  case (Suc k)
  then have ab: "a < b" and k: "k = b - Suc a" by linarith+
  have f: "fold (growNode3 m) [a..<b] s = fold (growNode3 m) [Suc a..<b] (growNode3 m a s)"
    using ab by (simp add: upt_conv_Cons)
  have u: "[a..<b] = a # [Suc a..<b]" using ab by (simp add: upt_conv_Cons)
  from Suc.hyps(1)[OF k, of "growNode3 m a s"] ab show ?case
    unfolding f radius_growNode3 u
    by (auto simp: growNode3_def)
qed

lemma fold_growNode_rows:
  "visibleSet (fold growNode [a..<b] s) = visibleSet s \<union> {a..<b} \<and>
   length (rowsEls (fold growNode [a..<b] s)) = length (rowsEls s) + (b - a)"
proof (induction "b - a" arbitrary: a s)
  case 0
  then show ?case by simp
next
  case (Suc k)
  then have ab: "a < b" and k: "k = b - Suc a" by linarith+
  have f: "fold growNode [a..<b] s = fold growNode [Suc a..<b] (growNode a s)"
    using ab by (simp add: upt_conv_Cons)
  have i: "{a..<b} = insert a {Suc a..<b}" using ab by auto
  have v: "visibleSet (growNode a s) = insert a (visibleSet s)"
    and r: "length (rowsEls (growNode a s)) = Suc (length (rowsEls s))"
    by (simp_all add: growNode_def addRow_def Let_def)
  from Suc.hyps(1)[OF k, of "growNode a s"] ab show ?case
    unfolding f i v r by simp
qed

lemma ensureNodeCapacity_rows:
  "visibleSet (ensureNodeCapacity n s) = visibleSet s \<union> {nodeCount s..<n} \<and>
   length (rowsEls (ensureNodeCapacity n s)) = length (rowsEls s) + (n - nodeCount s)"
proof (cases "n \<le> nodeCount s")
  case True
  then show ?thesis by (simp add: ensureNodeCapacity_def)
next
  case False
  then have "ensureNodeCapacity n s =
      resize (applyVisibility ((fold growNode [nodeCount s..<n] s)\<lparr>nodeCount := n\<rparr>))"
    by (simp add: ensureNodeCapacity_def)
  then show ?thesis
    using fold_growNode_rows[of "nodeCount s" n s]
    by (simp add: resize_def applyVisibility_def)
qed

lemma ensureNodeCapacity3_grow:
  assumes "aligned s" and "nodeCount3 s < n"
  shows "ensureNodeCapacity3 n s =
     Done ((fold (growNode3 n) [nodeCount3 s..<n] s)
       \<lparr>latestAmplitudes := latestAmplitudes s @ replicate (n - nodeCount3 s) 0,
         nodeCount3 := n\<rparr>)"
  using assms fold_growNode3[of n "nodeCount3 s" n s 0]
  by (simp add: ensureNodeCapacity3_def Let_def aligned_def)

lemma ensureNodeCapacity3_new:
  assumes al: "aligned s" and lt: "nodeCount3 s < n"
  shows "is_Done (ensureNodeCapacity3 n s)"
    and "nodeCount3 (state_of (ensureNodeCapacity3 n s)) = n"
    and "aligned (state_of (ensureNodeCapacity3 n s))"
    and "\<forall>i. nodeCount3 s \<le> i \<and> i < n \<longrightarrow>
         basePositions (state_of (ensureNodeCapacity3 n s)) ! i = circlePosition (radius s) i n \<and>
         color (meshes (state_of (ensureNodeCapacity3 n s)) ! i) = (real i / real n, 6 / 10, 55 / 100) \<and>
         amplitudes (state_of (ensureNodeCapacity3 n s)) i
           = Some (6 / 1000 + 4 / 1000 * (real i / real n)) \<and>
         freqs (state_of (ensureNodeCapacity3 n s)) i = Some (1 / 2 + 5 / 100 * real i) \<and>
         phases (state_of (ensureNodeCapacity3 n s)) i = Some ((real i / real n) * pi * 2) \<and>
         latestAmplitudes (state_of (ensureNodeCapacity3 n s)) ! i = 0"
    and "\<forall>i < nodeCount3 s.
         meshes (state_of (ensureNodeCapacity3 n s)) ! i = meshes s ! i \<and>
         basePositions (state_of (ensureNodeCapacity3 n s)) ! i = basePositions s ! i \<and>
         latestAmplitudes (state_of (ensureNodeCapacity3 n s)) ! i = latestAmplitudes s ! i"
proof -
  define c where "c = nodeCount3 s"
  define t where "t = fold (growNode3 n) [c..<n] s"
  define s' where "s' = t\<lparr>latestAmplitudes := latestAmplitudes s @ replicate (n - c) 0, nodeCount3 := n\<rparr>"
  have e: "ensureNodeCapacity3 n s = Done s'"
    unfolding s'_def t_def c_def by (rule ensureNodeCapacity3_grow[OF al lt])
  have lm: "length (meshes s) = c" and lb: "length (basePositions s) = c"
    and ll: "length (labels s) = c" and la: "length (latestAmplitudes s) = c"
    using al by (simp_all add: aligned_def c_def)
  have m: "meshes s' = meshes s @ map (\<lambda>i. newMesh (radius s) i n) [c..<n]"
    and b: "basePositions s' = basePositions s @ map (\<lambda>i. circlePosition (radius s) i n) [c..<n]"
    and l: "labels s' = labels s @ map (\<lambda>i. newLabel (radius s) i n) [c..<n]"
    and a: "latestAmplitudes s' = latestAmplitudes s @ replicate (n - c) 0"
    and k: "nodeCount3 s' = n"
    using fold_growNode3[of n c n s 0] by (simp_all add: s'_def t_def)
  have amp: "amplitudes s' i = Some (6 / 1000 + 4 / 1000 * (real i / real n))"
    and frq: "freqs s' i = Some (1 / 2 + 5 / 100 * real i)"
    and phs: "phases s' i = Some ((real i / real n) * pi * 2)"
    if "c \<le> i" "i < n" for i
    using fold_growNode3[of n c n s i] that by (simp_all add: s'_def t_def)
  have cn: "c < n" using lt by (simp add: c_def)
  show "is_Done (ensureNodeCapacity3 n s)" by (simp add: e)
  show "nodeCount3 (state_of (ensureNodeCapacity3 n s)) = n" by (simp add: e k)
  show "aligned (state_of (ensureNodeCapacity3 n s))"
    using cn by (simp add: e aligned_def m b l a k lm lb ll la)
  have new: "basePositions s' ! i = circlePosition (radius s) i n \<and>
         color (meshes s' ! i) = (real i / real n, 6 / 10, 55 / 100) \<and>
         latestAmplitudes s' ! i = 0" if "c \<le> i" "i < n" for i
  proof -
    have d: "i - c < n - c" and u: "[c..<n] ! (i - c) = i" using that by simp_all
    have "basePositions s' ! i = map (\<lambda>i. circlePosition (radius s) i n) [c..<n] ! (i - c)"
      using that by (simp add: b nth_append lb)
    moreover have "meshes s' ! i = map (\<lambda>i. newMesh (radius s) i n) [c..<n] ! (i - c)"
      using that by (simp add: m nth_append lm)
    moreover have "latestAmplitudes s' ! i = replicate (n - c) (0 :: float32) ! (i - c)"
      using that by (simp add: a nth_append la)
    ultimately show ?thesis using d u by (simp add: newMesh_def)
  qed
  show "\<forall>i. nodeCount3 s \<le> i \<and> i < n \<longrightarrow>
         basePositions (state_of (ensureNodeCapacity3 n s)) ! i = circlePosition (radius s) i n \<and>
         color (meshes (state_of (ensureNodeCapacity3 n s)) ! i) = (real i / real n, 6 / 10, 55 / 100) \<and>
         amplitudes (state_of (ensureNodeCapacity3 n s)) i
           = Some (6 / 1000 + 4 / 1000 * (real i / real n)) \<and>
         freqs (state_of (ensureNodeCapacity3 n s)) i = Some (1 / 2 + 5 / 100 * real i) \<and>
         phases (state_of (ensureNodeCapacity3 n s)) i = Some ((real i / real n) * pi * 2) \<and>
         latestAmplitudes (state_of (ensureNodeCapacity3 n s)) ! i = 0"
    unfolding e state_of.simps c_def[symmetric] using new amp frq phs by blast
  show "\<forall>i < nodeCount3 s.
         meshes (state_of (ensureNodeCapacity3 n s)) ! i = meshes s ! i \<and>
         basePositions (state_of (ensureNodeCapacity3 n s)) ! i = basePositions s ! i \<and>
         latestAmplitudes (state_of (ensureNodeCapacity3 n s)) ! i = latestAmplitudes s ! i"
    unfolding e state_of.simps c_def[symmetric] by (simp add: m b a nth_append lm lb la)
qed

lemma init_scene_latest: "latestAmplitudes (init_scene 3 5 None) = replicate 15 0"
  and init_scene_count: "nodeCount3 (init_scene 3 5 None) = 15"
  by (simp_all add: init_scene_def Let_def)






section \<open>The sphere layout\<close>








section \<open>The latest amplitudes of the 3D scene\<close>

lemma ToInt32_int:
  assumes "- (2 ^ 31) \<le> k" and "k < 2 ^ 31"
  shows "ToInt32 (Some (of_int k)) = k"
proof -
  have t: "(if (of_int k :: real) \<ge> 0 then \<lfloor>of_int k :: real\<rfloor> else \<lceil>of_int k :: real\<rceil>) = k"
    by simp
  have "0 \<le> k + 2 ^ 31" and "k + 2 ^ 31 < 2 ^ 32" using assms by simp_all
  then have "(k + 2 ^ 31) mod 2 ^ 32 = k + 2 ^ 31" by (rule mod_pos_pos_trivial)
  then show ?thesis unfolding ToInt32_def option.case Let_def t by simp
qed

lemma updateItem_frame:
  "nodeCount3 (updateItem it s) = nodeCount3 s \<and>
   length (latestAmplitudes (updateItem it s)) = length (latestAmplitudes s)"
  by (simp add: updateItem_def Let_def split: option.splits)

lemma updateLoop_frame:
  "nodeCount3 (state_of (updateLoop its s)) = nodeCount3 s \<and>
   length (latestAmplitudes (state_of (updateLoop its s))) = length (latestAmplitudes s)"
  by (induction its s rule: updateLoop.induct) (simp_all add: updateItem_frame)

lemma updateNodes_frame:
  "nodeCount3 (updateNodes p nowMs s) = nodeCount3 s \<and>
   length (latestAmplitudes (updateNodes p nowMs s)) = length (latestAmplitudes s)"
proof (cases p)
  case None
  then show ?thesis by (simp add: updateNodes_def)
next
  case (Some its)
  with updateLoop_frame[of its s] show ?thesis
    by (cases "updateLoop its s") (simp_all add: updateNodes_def)
qed

lemma ToInt32_wrap: "ToInt32 (Some 4294967296) = 0"
  by (simp add: ToInt32_def)

lemma toFloat32_half: "toFloat32 (1 / 2) = Finite32 (1 / 2)"
proof -
  have "binaryRound 24 (- 126) (1 / 2) =
          of_int (rne ((1 / 2) / 2 powr (of_int (max (- 1) (- 126)) - (real 24 - 1))))
            * 2 powr (of_int (max (- 1) (- 126)) - (real 24 - 1))"
    by (rule binaryRound_at) (simp_all add: powr_minus_divide)
  also have "\<dots> = 1 / 2"
    by (simp add: powr_minus_divide rne_def Let_def)
  finally show ?thesis by (simp add: toFloat32_def)
qed

lemma toFloat32_tenth: "toFloat32 (double (1 / 10)) = Finite32 (13421773 / 134217728)"
proof -
  have "binaryRound 24 (- 126) (3602879701896397 / 36028797018963968) =
          of_int (rne ((3602879701896397 / 36028797018963968)
                         / 2 powr (of_int (max (- 4) (- 126)) - (real 24 - 1))))
            * 2 powr (of_int (max (- 4) (- 126)) - (real 24 - 1))"
    by (rule binaryRound_at) (simp_all add: powr_minus_divide)
  also have "\<dots> = 13421773 / 134217728"
    by (simp add: powr_minus_divide rne_def Let_def)
  finally show ?thesis unfolding double_tenth by (simp add: toFloat32_def)
qed

lemma toFloat32_overflow: "toFloat32 (double (10 ^ 39)) = PosInf32"
proof -
  have "2 powr of_int 128 \<le> binaryRound 53 (- 1022) (10 ^ 39)"
    by (rule binaryRound_ge_pow2) simp_all
  then have d: "2 powr of_int 128 \<le> double (10 ^ 39)" by (simp add: double_def)
  moreover have "0 < (2 :: real) powr of_int 128" by simp
  ultimately have "0 < double (10 ^ 39)" by linarith
  then have "2 powr of_int 128 \<le> binaryRound 24 (- 126) (double (10 ^ 39))"
    using d by (intro binaryRound_ge_pow2) simp_all
  then have "(2 :: real) ^ 128 \<le> binaryRound 24 (- 126) (double (10 ^ 39))" by simp
  then show ?thesis by (simp add: toFloat32_def del: power_numeral)
qed

lemma toFloat32_near:
  assumes "toFloat32 a = Finite32 r"
  shows "\<bar>r - a\<bar> \<le> max (\<bar>a\<bar> / 2 ^ 24) (1 / 2 ^ 150)"
proof (cases "a = 0")
  case True
  with assms show ?thesis
    by (simp add: toFloat32_def binaryRound_zero split: if_splits)
next
  case False
  from assms have r: "r = binaryRound 24 (- 126) a"
    by (simp add: toFloat32_def Let_def split: if_splits)
  define f where "f = \<lfloor>log 2 \<bar>a\<bar>\<rfloor>"
  have b: "\<bar>r - a\<bar> \<le> 2 powr (of_int (max f (- 126)) - (real 24 - 1)) / 2"
    unfolding r f_def by (rule binaryRound_error[OF False])
  show ?thesis
  proof (cases "- 126 \<le> f")
    case True
    have "of_int f \<le> log 2 \<bar>a\<bar>" by (simp add: f_def)
    then have "2 powr of_int f \<le> \<bar>a\<bar>" using False by (simp add: le_log_iff)
    moreover have "2 powr (of_int f - (real 24 - 1)) / 2 = 2 powr of_int f / 2 ^ 24"
      by (simp add: powr_diff)
    ultimately have "2 powr (of_int (max f (- 126)) - (real 24 - 1)) / 2 \<le> \<bar>a\<bar> / 2 ^ 24"
      using True by (simp add: max_def divide_right_mono)
    with b show ?thesis by linarith
  next
    case False
    then have "max f (- 126) = - 126" by simp
    then have "2 powr (of_int (max f (- 126)) - (real 24 - 1)) / 2 = 1 / 2 ^ 150"
      by (simp add: powr_minus_divide)
    with b show ?thesis by linarith
  qed
qed

text \<open>
  Claim C10, as stated: an entry whose id is outside \<open>[0, channelCount)\<close> is ignored, and
  an entry in range sets the latest amplitude to its amplitude. The source tests the id
  after \<^verbatim>\<open>id | 0\<close>, which wraps modulo \<open>2^32\<close> and turns a missing or non-numeric id
  into 0: with 15 channels, the entries \<^verbatim>\<open>{id: 4294967296, amplitude: 0.5}\<close> and
  \<^verbatim>\<open>{amplitude: 0.5}\<close> both set the latest amplitude of channel 0. And the vector holds
  single-precision values: the amplitude 0.1 (a double) of an entry for channel 3 is stored
  as \<open>13421773 / 2^27\<close> (0.10000000149011612), which is not that double.
\<close>

theorem updateNodes_wrapped_id_counterexample:
  "\<not> (0 \<le> (4294967296 :: real) \<and> (4294967296 :: real) < real (nodeCount3 (init_scene 3 5 None))) \<and>
   latestAmplitudes (init_scene 3 5 None) ! 0 = 0 \<and>
   latestAmplitudes (updateNodes (Some [Some \<lparr>item_id = Some 4294967296, item_amplitude = Some (1 / 2)\<rparr>]) 0
       (init_scene 3 5 None)) ! 0 = Finite32 (1 / 2) \<and>
   latestAmplitudes (updateNodes (Some [Some \<lparr>item_id = None, item_amplitude = Some (1 / 2)\<rparr>]) 0
       (init_scene 3 5 None)) ! 0 = Finite32 (1 / 2) \<and>
   latestAmplitudes (updateNodes (Some [Some \<lparr>item_id = Some 3, item_amplitude = Some (double (1 / 10))\<rparr>]) 0
       (init_scene 3 5 None)) ! 3 = Finite32 (13421773 / 134217728) \<and>
   Finite32 (13421773 / 134217728) \<noteq> Finite32 (double (1 / 10))"
proof -
  have "ToInt32 (Some 3) = 3" by (rule ToInt32_int[of 3, simplified])
  moreover have "ToInt32 None = 0" by (simp add: ToInt32_def)
  moreover have "Finite32 (13421773 / 134217728) \<noteq> Finite32 (double (1 / 10))"
    unfolding double_tenth by simp
  ultimately show ?thesis
    by (simp add: updateNodes_def updateItem_def ToInt32_wrap init_scene_latest init_scene_count
        Let_def toFloat32_half toFloat32_tenth zero_float32_def)
qed

text \<open>
  Claim C10, amended: with \<open>k\<close> the id of an entry after \<^verbatim>\<open>id | 0\<close> (the id itself when it
  is an integer of the signed 32-bit range), an entry with \<open>k\<close> outside \<open>[0, channelCount)\<close>
  or with a non-finite amplitude changes nothing; an entry with \<open>k\<close> in range and a finite
  amplitude sets \<open>latestAmplitudes[k]\<close> to the amplitude rounded to single precision and
  changes nothing else. The rounded value is within \<open>2^-24\<close> of the amplitude, relatively
  (within \<open>2^-150\<close> for the smallest amplitudes), so 0.5 is stored as it is and the double
  0.1 as \<open>13421773 / 2^27\<close>; a finite amplitude from about \<open>3.4 * 10^38\<close> on, such as the
  double \<open>10^39\<close>, is stored as an infinity. The entries are taken in order; an entry that is \<^verbatim>\<open>null\<close> ends the call
  there: the entries before it stay applied, those after it are not, and the live-data flag
  and time are not set. No call changes the channel count or the length of the vector.
\<close>

theorem updateNodes_entries:
  "((ToInt32 (item_id it) < 0 \<or> int (nodeCount3 s) \<le> ToInt32 (item_id it) \<or> item_amplitude it = None)
      \<longrightarrow> updateItem it s = s) \<and>
   (0 \<le> ToInt32 (item_id it) \<and> ToInt32 (item_id it) < int (nodeCount3 s) \<and> item_amplitude it = Some a
      \<longrightarrow> updateItem it s =
            s\<lparr>latestAmplitudes := (latestAmplitudes s)[nat (ToInt32 (item_id it)) := toFloat32 a]\<rparr>) \<and>
   (toFloat32 a = Finite32 r \<longrightarrow> \<bar>r - a\<bar> \<le> max (\<bar>a\<bar> / 2 ^ 24) (1 / 2 ^ 150)) \<and>
   toFloat32 (1 / 2) = Finite32 (1 / 2) \<and>
   toFloat32 (double (1 / 10)) = Finite32 (13421773 / 134217728) \<and>
   toFloat32 (double (10 ^ 39)) = PosInf32 \<and>
   (- (2 ^ 31) \<le> k \<and> k < 2 ^ 31 \<longrightarrow> ToInt32 (Some (of_int k)) = k) \<and>
   updateNodes (Some (Some it # its)) nowMs s = updateNodes (Some its) nowMs (updateItem it s) \<and>
   updateNodes (Some (None # its)) nowMs s = s \<and>
   updateNodes (Some []) nowMs s = s\<lparr>hasLiveData := True, lastUpdateMs := nowMs\<rparr> \<and>
   updateNodes None nowMs s = s \<and>
   nodeCount3 (updateNodes p nowMs s) = nodeCount3 s \<and>
   length (latestAmplitudes (updateNodes p nowMs s)) = length (latestAmplitudes s)"
proof (intro conjI impI)
  show "updateItem it s = s"
    if "ToInt32 (item_id it) < 0 \<or> int (nodeCount3 s) \<le> ToInt32 (item_id it) \<or> item_amplitude it = None"
    using that by (auto simp: updateItem_def Let_def)
  show "updateItem it s =
      s\<lparr>latestAmplitudes := (latestAmplitudes s)[nat (ToInt32 (item_id it)) := toFloat32 a]\<rparr>"
    if "0 \<le> ToInt32 (item_id it) \<and> ToInt32 (item_id it) < int (nodeCount3 s) \<and> item_amplitude it = Some a"
    using that by (simp add: updateItem_def Let_def)
  show "\<bar>r - a\<bar> \<le> max (\<bar>a\<bar> / 2 ^ 24) (1 / 2 ^ 150)" if "toFloat32 a = Finite32 r"
    using that by (rule toFloat32_near)
  show "toFloat32 (1 / 2) = Finite32 (1 / 2)" by (rule toFloat32_half)
  show "toFloat32 (double (1 / 10)) = Finite32 (13421773 / 134217728)" by (rule toFloat32_tenth)
  show "toFloat32 (double (10 ^ 39)) = PosInf32" by (rule toFloat32_overflow)
  show "ToInt32 (Some (of_int k)) = k" if "- (2 ^ 31) \<le> k \<and> k < 2 ^ 31"
    using that ToInt32_int by blast
  show "updateNodes (Some (Some it # its)) nowMs s = updateNodes (Some its) nowMs (updateItem it s)"
    by (simp add: updateNodes_def)
  show "updateNodes (Some (None # its)) nowMs s = s"
    by (simp add: updateNodes_def)
  show "updateNodes (Some []) nowMs s = s\<lparr>hasLiveData := True, lastUpdateMs := nowMs\<rparr>"
    by (simp add: updateNodes_def)
  show "updateNodes None nowMs s = s" by (simp add: updateNodes_def)
  show "nodeCount3 (updateNodes p nowMs s) = nodeCount3 s"
    by (simp add: updateNodes_frame)
  show "length (latestAmplitudes (updateNodes p nowMs s)) = length (latestAmplitudes s)"
    by (simp add: updateNodes_frame)
qed

theorem updateNodes_entries_witness:
  "ToInt32 (Some 3) = 3 \<and>
   updateNodes
      (Some [Some \<lparr>item_id = Some 3, item_amplitude = Some (double (1 / 10))\<rparr>,
             Some \<lparr>item_id = Some 99, item_amplitude = Some 7\<rparr>,
             Some \<lparr>item_id = Some 4, item_amplitude = None\<rparr>]) 8 (init_scene 3 5 None)
     = (init_scene 3 5 None)
         \<lparr>latestAmplitudes := (replicate 15 0)[3 := Finite32 (13421773 / 134217728)],
          hasLiveData := True, lastUpdateMs := 8\<rparr> \<and>
   \<bar>13421773 / 134217728 - double (1 / 10)\<bar> \<le> max (\<bar>double (1 / 10)\<bar> / 2 ^ 24) (1 / 2 ^ 150) \<and>
   updateNodes
      (Some [Some \<lparr>item_id = Some 3, item_amplitude = Some (double (1 / 10))\<rparr>,
             None,
             Some \<lparr>item_id = Some 4, item_amplitude = Some (1 / 2)\<rparr>]) 8 (init_scene 3 5 None)
     = (init_scene 3 5 None)
         \<lparr>latestAmplitudes := (replicate 15 0)[3 := Finite32 (13421773 / 134217728)]\<rparr> \<and>
   nodeCount3 (updateNodes
      (Some [Some \<lparr>item_id = Some 3, item_amplitude = Some (double (1 / 10))\<rparr>,
             None,
             Some \<lparr>item_id = Some 4, item_amplitude = Some (1 / 2)\<rparr>]) 8 (init_scene 3 5 None)) = 15"
proof -
  define s0 where "s0 = init_scene 3 5 None"
  define x :: real where "x = double (1 / 10)"
  define i1 where "i1 = \<lparr>item_id = Some 3, item_amplitude = Some x\<rparr>"
  define i2 where "i2 = \<lparr>item_id = Some 99, item_amplitude = Some 7\<rparr>"
  define i3 where "i3 = \<lparr>item_id = Some 4, item_amplitude = (None :: real option)\<rparr>"
  define i4 where "i4 = \<lparr>item_id = Some 4, item_amplitude = Some (1 / 2)\<rparr>"
  define s1 where "s1 = s0\<lparr>latestAmplitudes := (latestAmplitudes s0)[3 := toFloat32 x]\<rparr>"
  have c0: "nodeCount3 s0 = 15" by (simp add: s0_def init_scene_count)
  have c1: "nodeCount3 s1 = 15" by (simp add: s1_def c0)
  note th = updateNodes_entries[of i1 s0 x "13421773 / 134217728" 3 "[Some i2, Some i3]" 8 None]
  have t3: "ToInt32 (Some 3) = 3" using th by simp
  have t99: "ToInt32 (Some 99) = 99"
    using updateNodes_entries[of i1 s0 x 0 99 "[]" 8 None] by simp
  have f: "toFloat32 x = Finite32 (13421773 / 134217728)" unfolding x_def using th by blast
  have n: "\<bar>13421773 / 134217728 - x\<bar> \<le> max (\<bar>x\<bar> / 2 ^ 24) (1 / 2 ^ 150)"
    using th f by blast
  have u1: "updateItem i1 s0 = s1"
    using th t3 c0 by (simp add: i1_def s1_def)
  have u2: "updateItem i2 s1 = s1"
    using updateNodes_entries[of i2 s1 0 0 3 "[]" 8 None] t99 c1 by (simp add: i2_def)
  have u3: "updateItem i3 s1 = s1"
    using updateNodes_entries[of i3 s1 0 0 3 "[]" 8 None] by (simp add: i3_def)
  have a: "updateNodes (Some [Some i1, Some i2, Some i3]) 8 s0 = s1\<lparr>hasLiveData := True, lastUpdateMs := 8\<rparr>"
    using th
      updateNodes_entries[of i2 s1 0 0 3 "[Some i3]" 8 None]
      updateNodes_entries[of i3 s1 0 0 3 "[]" 8 None]
    by (simp add: u1 u2 u3)
  have b: "updateNodes (Some [Some i1, None, Some i4]) 8 s0 = s1"
    using updateNodes_entries[of i1 s0 x 0 3 "[None, Some i4]" 8 None]
      updateNodes_entries[of i1 s1 x 0 3 "[Some i4]" 8 None]
    by (simp add: u1)
  have c: "nodeCount3 (updateNodes (Some [Some i1, None, Some i4]) 8 s0) = 15"
    using updateNodes_entries[of i1 s0 0 0 3 "[]" 8 "Some [Some i1, None, Some i4]"] c0 by simp
  have s1: "s1 = s0\<lparr>latestAmplitudes := (replicate 15 0)[3 := Finite32 (13421773 / 134217728)]\<rparr>"
    unfolding s1_def f by (simp add: s0_def init_scene_latest)
  note a' = a[unfolded s1 s0_def i1_def i2_def i3_def x_def]
    and b' = b[unfolded s1 s0_def i1_def i4_def x_def]
    and c' = c[unfolded s0_def i1_def i4_def x_def]
    and n' = n[unfolded x_def]
  from t3 a' n' b' c' show ?thesis by blast
qed

section \<open>The states of a session\<close>

text \<open>
  What the theorems on clearing and on the 3D capacity assume of the state holds in every
  state a session reaches from a fresh page: every channel below the 2D channel count has a
  buffer and a row, and the arrays of the 3D module are aligned with its node count.
\<close>

lemma clearable_fields:
  assumes "clearable 0 s" and "nodeCount s' = nodeCount s"
    and "length (rowsEls s') = length (rowsEls s)"
    and "\<And>j. dataByNode s j \<noteq> None \<Longrightarrow> dataByNode s' j \<noteq> None"
  shows "clearable 0 s'"
  using assms by (simp add: clearable_def)

lemma ensureNodeCapacity_clearable:
  assumes "clearable 0 s"
  shows "clearable 0 (ensureNodeCapacity n s)"
proof -
  have le: "nodeCount s \<le> length (rowsEls s)"
  proof (cases "nodeCount s")
    case 0
    then show ?thesis by simp
  next
    case (Suc k)
    with assms have "k < length (rowsEls s)" by (simp add: clearable_def)
    with Suc show ?thesis by simp
  qed
  show ?thesis
    unfolding clearable_def
  proof (intro allI impI)
    fix j
    assume j: "0 \<le> j \<and> j < nodeCount (ensureNodeCapacity n s)"
    then have jm: "j < max n (nodeCount s)" by (simp add: ensureNodeCapacity_count)
    have "dataByNode (ensureNodeCapacity n s) j \<noteq> None"
      using assms jm by (auto simp: ensureNodeCapacity_data clearable_def)
    moreover have "j < length (rowsEls (ensureNodeCapacity n s))"
      using jm le by (simp add: ensureNodeCapacity_rows)
    ultimately show "dataByNode (ensureNodeCapacity n s) j \<noteq> None \<and>
        j < length (rowsEls (ensureNodeCapacity n s))" by simp
  qed
qed

lemma pushSample_rows: "rowsEls (state_of (pushSample i t y s)) = rowsEls s"
  by (simp add: pushSample_def split: option.splits)

lemma pushAmps_rows: "rowsEls (state_of (pushAmps is t vs s)) = rowsEls s"
proof (induction "is" arbitrary: s)
  case Nil
  show ?case by simp
next
  case (Cons i "is")
  show ?case
  proof (cases "numAt vs i")
    case None
    with Cons[of s] show ?thesis by simp
  next
    case (Some y)
    show ?thesis
    proof (cases "pushSample i t y s")
      case (Done s1)
      with pushSample_rows[of i t y s] Cons[of s1] Some show ?thesis by simp
    next
      case (Thrown s1)
      with pushSample_rows[of i t y s] Some show ?thesis by simp
    qed
  qed
qed

lemma pushVector_clearable:
  assumes "clearable 0 s"
  shows "clearable 0 (state_of (pushVector t vs s))"
proof -
  define s1 where "s1 = ensureNodeCapacity (length vs) s"
  define js where "js = [0..<min (nodeCount s1) (length vs)]"
  have c1: "clearable 0 s1" unfolding s1_def by (rule ensureNodeCapacity_clearable[OF assms])
  have "clearable 0 (state_of (pushAmps js t vs s1))"
  proof (rule clearable_fields[OF c1])
    show "nodeCount (state_of (pushAmps js t vs s1)) = nodeCount s1"
      using pushAmps_keeps[of js t vs s1 0] by simp
    show "length (rowsEls (state_of (pushAmps js t vs s1))) = length (rowsEls s1)"
      by (simp add: pushAmps_rows)
    show "dataByNode (state_of (pushAmps js t vs s1)) j \<noteq> None" if "dataByNode s1 j \<noteq> None" for j
      using pushAmps_keeps[of js t vs s1 j] that by simp
  qed
  then show ?thesis by (simp add: pushVector_def Let_def s1_def js_def)
qed

lemma pushFrames_clearable:
  "clearable 0 s \<Longrightarrow> clearable 0 (state_of (pushFrames fs clock s))"
proof (induction fs arbitrary: s)
  case Nil
  then show ?case by simp
next
  case (Cons f fs)
  obtain tk vs where f: "f = (tk, vs)" by (cases f)
  show ?case
  proof (cases tk)
    case None
    with f Cons show ?thesis by simp
  next
    case (Some tAbs)
    define tRel where "tRel = (case t0Payload s of Some t0 \<Rightarrow> double (tAbs - t0) | None \<Rightarrow> clock)"
    have c: "clearable 0 (state_of (pushVector tRel vs s))"
      by (rule pushVector_clearable[OF Cons.prems])
    show ?thesis
    proof (cases "pushVector tRel vs s")
      case (Done s1)
      with c Cons.IH[of s1] f Some show ?thesis by (simp add: tRel_def[symmetric])
    next
      case (Thrown s1)
      with c f Some show ?thesis by (simp add: tRel_def[symmetric])
    qed
  qed
qed

lemma updateEstimate_rows: "rowsEls (updateEstimate s) = rowsEls s"
  by (simp add: updateEstimate_def Let_def)

lemma estimateSampleRate_rows: "rowsEls (estimateSampleRate x s) = rowsEls s"
  using estimateSampleRate_shape[of x s]
  by (auto simp: recordInterval_def Let_def updateEstimate_rows)

lemma batchStart_clearable: "clearable 0 s \<Longrightarrow> clearable 0 (batchStart tsl fl s)"
proof (rule clearable_fields)
  show "nodeCount (batchStart tsl fl s) = nodeCount s" by (simp add: batchStart_channels)
  show "length (rowsEls (batchStart tsl fl s)) = length (rowsEls s)"
    by (simp add: batchStart_def Let_def estimateSampleRate_rows)
  show "dataByNode (batchStart tsl fl s) j \<noteq> None" if "dataByNode s j \<noteq> None" for j
    using that by (simp add: batchStart_channels)
qed

lemma batchFinish_clearable: "clearable 0 (state_of r) \<Longrightarrow> clearable 0 (batchFinish r)"
  by (cases r) (simp_all add: batchFinish_def clearable_def)

lemma pushGraphBatch_clearable:
  assumes "clearable 0 s"
  shows "clearable 0 (pushGraphBatch p clock s)"
proof (cases "\<exists>b tsl fl. p = Some b \<and> ts b = Some tsl \<and> frames b = Some fl")
  case True
  then obtain b tsl fl where p: "p = Some b" "ts b = Some tsl" "frames b = Some fl" by blast
  have "clearable 0 (batchFinish (pushFrames (zip tsl fl) clock (batchStart tsl fl s)))"
    by (intro batchFinish_clearable pushFrames_clearable batchStart_clearable assms)
  with p show ?thesis by (simp add: pushGraphBatch_def)
next
  case False
  then have "pushGraphBatch p clock s = s"
    by (auto simp: pushGraphBatch_def split: option.splits)
  with assms show ?thesis by simp
qed

lemma singleFinish_clearable: "clearable 0 (state_of r) \<Longrightarrow> clearable 0 (singleFinish t r)"
  by (cases r) (simp_all add: singleFinish_def clearable_def)

lemma pushGraphSamples_clearable:
  assumes "clearable 0 s"
  shows "clearable 0 (pushGraphSamples p clock s)"
proof (cases p)
  case None
  with assms show ?thesis by (simp add: pushGraphSamples_def)
next
  case (Some payload)
  obtain s0 t where st: "relativeTime payload clock s = (s0, t)" by fastforce
  then have c0: "clearable 0 s0"
    using assms by (auto simp: relativeTime_def Let_def clearable_def split: option.splits)
  define r where "r = (case nodes payload of
                      Some vs \<Rightarrow> pushVector t vs s0
                    | None \<Rightarrow>
                        (case amps payload of
                           Some vs \<Rightarrow> pushVector t vs s0
                         | None \<Rightarrow> Done s0))"
  have "clearable 0 (state_of r)"
    unfolding r_def using c0 pushVector_clearable[OF c0, of t]
    by (simp split: option.splits)
  then have "clearable 0 (singleFinish t r)" by (rule singleFinish_clearable)
  moreover have "pushGraphSamples p clock s = singleFinish t r"
    using Some st by (simp add: pushGraphSamples_def r_def)
  ultimately show ?thesis by simp
qed

lemma step_clearable:
  assumes "clearable 0 (graph2d v)"
  shows "clearable 0 (graph2d (step e v))"
proof (cases e)
  case (PushSingle p clock)
  with pushGraphSamples_clearable[OF assms] show ?thesis by simp
next
  case (PushBatch p clock)
  with pushGraphBatch_clearable[OF assms] show ?thesis by simp
next
  case (WinInput x)
  with assms show ?thesis
    by (simp add: winInput_def Let_def clearable_def split: option.splits)
next
  case ToggleClick
  with assms show ?thesis by (simp add: clearable_def)
next
  case (ModalOkClick checked)
  with assms show ?thesis
    by (simp add: modalOk_def applyVisibility_def Let_def clearable_def)
next
  case ClearClick
  from clearFrom_cleared[OF assms] have "cleared 0 (graph2d v) (state_of (clearAllData (graph2d v)))"
    by (simp add: clearAllData_def)
  with assms ClearClick show ?thesis by (simp add: cleared_def clearable_def)
next
  case (SetNodeCount n)
  with assms show ?thesis by simp
next
  case (UpdateNodes p nowMs)
  with assms show ?thesis by simp
qed

lemma reachable_clearable: "clearable 0 (graph2d (run es (fresh w)))"
proof -
  have "clearable 0 (graph2d v) \<Longrightarrow> clearable 0 (graph2d (run es v))" for v
    by (induction es arbitrary: v) (simp_all add: step_clearable)
  moreover have "clearable 0 (graph2d (fresh w))"
    by (simp add: fresh_def init_graph_def clearable_def)
  ultimately show ?thesis by blast
qed

lemma updateLoop_arrays:
  "meshes (state_of (updateLoop its s)) = meshes s \<and>
   labels (state_of (updateLoop its s)) = labels s \<and>
   basePositions (state_of (updateLoop its s)) = basePositions s"
  by (induction its s rule: updateLoop.induct)
    (simp_all add: updateItem_def Let_def split: option.splits)

lemma updateNodes_aligned: "aligned s \<Longrightarrow> aligned (updateNodes p nowMs s)"
proof (cases p)
  case None
  assume "aligned s"
  with None show ?thesis by (simp add: updateNodes_def)
next
  case (Some its)
  assume a: "aligned s"
  with updateLoop_arrays[of its s] updateLoop_frame[of its s] Some show ?thesis
    by (cases "updateLoop its s") (simp_all add: updateNodes_def aligned_def)
qed

lemma setNodeCount_aligned: "aligned s \<Longrightarrow> aligned (setNodeCount n s)"
proof (cases n)
  case None
  assume "aligned s"
  with None show ?thesis by (simp add: setNodeCount_def)
next
  case (Some k)
  assume a: "aligned s"
  show ?thesis
  proof (cases "k \<le> nodeCount3 s")
    case True
    with a Some show ?thesis by (simp add: setNodeCount_def ensureNodeCapacity3_def)
  next
    case False
    then have lt: "nodeCount3 s < k" by simp
    from ensureNodeCapacity3_new(1,3)[OF a lt] Some show ?thesis
      by (cases "ensureNodeCapacity3 k s") (simp_all add: setNodeCount_def)
  qed
qed

lemma init_scene_aligned_any: "aligned (init_scene c r cnt)"
  by (simp add: aligned_def init_scene_def Let_def)

lemma reachable_aligned: "aligned (scene3d (run es (fresh w)))"
proof -
  have s: "aligned (scene3d v) \<Longrightarrow> aligned (scene3d (step e v))" for v e
    by (cases e) (simp_all add: updateNodes_aligned setNodeCount_aligned)
  have "aligned (scene3d v) \<Longrightarrow> aligned (scene3d (run es v))" for v
    by (induction es arbitrary: v) (simp_all add: s)
  moreover have "aligned (scene3d (fresh w))"
    by (simp add: fresh_def init_scene_aligned_any)
  ultimately show ?thesis by blast
qed

end
